theory Spec2Isabelle
  imports Main "HOL-Library.Word"
begin

unbundle bit_operations_syntax

text \<open>
  A shallow embedding of the driver of the ThingMagic M5e reader: the circular buffer
  (circular\_buffer.c), the serial line (usart.c) and the reader protocol (rfid\_m5.c).
  Bytes and 16-bit values are machine words; every function that writes through a pointer
  takes the value behind the pointer and returns the new one.
\<close>

section \<open>Circular buffer (circular\_buffer.c)\<close>

type_synonym uint8_t = "8 word"
type_synonym uint16_t = "16 word"

text \<open>
  \<^verbatim>\<open>struct cbuffer_t\<close>. The byte array behind the \<^verbatim>\<open>buffer\<close> pointer is a list, the
  one-bit field \<^verbatim>\<open>overflow\<close> a boolean. The field \<^verbatim>\<open>size\<close> is called \<open>size_cb\<close>, since
  \<open>size\<close> is a constant of HOL; for the same reason the parameter \<^verbatim>\<open>size\<close> of the
  functions below is called \<open>dsize\<close>. An access through a cursor beyond the array is
  undefined in C; here such a read is an unspecified byte and such a write does nothing.
  No state that the operations reach from \<^verbatim>\<open>cbuffer_init\<close> has such a cursor
  (\<open>reachable_inv\<close> below).
\<close>

record cbuffer_t =
  buffer :: "uint8_t list"
  idx :: uint8_t
  start :: uint8_t
  TOP :: uint8_t
  size_cb :: uint8_t
  len :: uint8_t
  overflow :: bool

definition cbuffer_clear :: "cbuffer_t \<Rightarrow> cbuffer_t" where
  "cbuffer_clear cbuffer = cbuffer\<lparr>idx := 0, start := 0, len := 0, overflow := False\<rparr>"

text \<open>
  \<^verbatim>\<open>cbuffer_init\<close>: \<open>CBUF_SIZE\<close> is the compile-time capacity (16 by default) and \<open>mem\<close>
  the contents of the block that \<^verbatim>\<open>malloc(CBUF_SIZE)\<close> returns, which C leaves
  indeterminate. Both allocations are taken to succeed.
\<close>

definition cbuffer_init :: "nat \<Rightarrow> uint8_t list \<Rightarrow> cbuffer_t" where
  "cbuffer_init CBUF_SIZE mem =
     cbuffer_clear \<lparr>buffer = mem, idx = 0, start = 0, TOP = of_nat CBUF_SIZE - 1,
       size_cb = of_nat CBUF_SIZE, len = 0, overflow = False\<rparr>"

text \<open>
  \<^verbatim>\<open>bcpy\<close>, without \<^verbatim>\<open>CBUF_OVR_CHAR\<close> (the default build). The caller's area \<open>data\<close> is a
  list updated at index \<open>j\<close>; the function returns the buffer, the area and the new \<open>j\<close>.
  The read cursor moves and \<open>len\<close> drops even when nothing is copied.
\<close>

definition bcpy :: "cbuffer_t \<Rightarrow> uint8_t list \<Rightarrow> uint8_t \<Rightarrow> uint8_t
    \<Rightarrow> cbuffer_t \<times> uint8_t list \<times> uint8_t" where
  "bcpy cbuffer data dsize j =
     (let data1 = (if j < dsize then data[unat j := buffer cbuffer ! unat (start cbuffer)] else data);
          j1 = (if j < dsize then j + 1 else j);
          cb1 = (if start cbuffer = TOP cbuffer then cbuffer\<lparr>start := 0\<rparr>
                 else cbuffer\<lparr>start := start cbuffer + 1\<rparr>);
          cb2 = cb1\<lparr>len := len cb1 - 1\<rparr>
      in (cb2, data1, j1))"

text \<open>The \<^verbatim>\<open>while\<close> loop of \<^verbatim>\<open>cbuffer_pop\<close>; \<open>index\<close> is the frozen write cursor.\<close>

function pop_loop :: "cbuffer_t \<Rightarrow> uint8_t list \<Rightarrow> uint8_t \<Rightarrow> uint8_t \<Rightarrow> uint8_t
    \<Rightarrow> cbuffer_t \<times> uint8_t list \<times> uint8_t" where
  "pop_loop cbuffer data dsize index j =
     (if start cbuffer \<noteq> index \<and> j < dsize
      then (case bcpy cbuffer data dsize j of
              (cbuffer', data', j') \<Rightarrow> pop_loop cbuffer' data' dsize index j')
      else (cbuffer, data, j))"
  by pat_completeness auto
termination
proof (relation "measure (\<lambda>(cbuffer, data, dsize, index, j). unat dsize - unat j)", goal_cases)
  case 1
  show ?case by simp
next
  case (2 cbuffer data dsize index j x1 x2 y1 y2)
  from 2(1) have lt: "unat j < unat dsize"
    by (simp add: word_less_nat_alt)
  from 2 have j': "y2 = j + 1"
    by (simp add: bcpy_def Let_def)
  have "unat dsize < 2 ^ 8"
    using unsigned_less [of dsize] by simp
  with lt have "unat (j + 1) = unat j + 1"
    by (simp add: unat_word_ariths)
  with lt j' show ?case
    by simp
qed

declare pop_loop.simps [simp del]

definition cbuffer_pop :: "cbuffer_t \<Rightarrow> uint8_t list \<Rightarrow> uint8_t
    \<Rightarrow> cbuffer_t \<times> uint8_t list \<times> uint8_t" where
  "cbuffer_pop cbuffer data dsize =
     (if len cbuffer \<noteq> 0
      then (let index = idx cbuffer;
                (cb1, data1, j1) = (if overflow cbuffer then bcpy cbuffer data dsize 0
                                    else (cbuffer, data, 0));
                (cb2, data2, j2) = pop_loop cb1 data1 dsize index j1
            in (cb2\<lparr>overflow := False\<rparr>, data2, j2))
      else (cbuffer, data, 0))"

text \<open>
  The \<^verbatim>\<open>while\<close> loop of \<^verbatim>\<open>cbuffer_popm\<close>. Its condition does not look at \<open>j\<close>, and on
  a buffer whose cursors are out of range it need not stop: the result is an option,
  \<open>None\<close> when the loop runs forever.
\<close>

partial_function (option) popm_loop :: "cbuffer_t \<Rightarrow> uint8_t list \<Rightarrow> uint8_t \<Rightarrow> uint8_t
    \<Rightarrow> uint8_t \<Rightarrow> uint8_t \<Rightarrow> bool \<Rightarrow> (cbuffer_t \<times> uint8_t list \<times> uint8_t) option" where
  "popm_loop cbuffer data dsize eom index j loop =
     (if loop \<and> start cbuffer \<noteq> index
      then popm_loop (fst (bcpy cbuffer data dsize j)) (fst (snd (bcpy cbuffer data dsize j)))
             dsize eom index (snd (snd (bcpy cbuffer data dsize j)))
             (if buffer cbuffer ! unat (start cbuffer) = eom then False else loop)
      else Some (cbuffer, data, j))"

declare popm_loop.simps [code]

definition cbuffer_popm :: "cbuffer_t \<Rightarrow> uint8_t list \<Rightarrow> uint8_t \<Rightarrow> uint8_t
    \<Rightarrow> (cbuffer_t \<times> uint8_t list \<times> uint8_t) option" where
  "cbuffer_popm cbuffer data dsize eom =
     (if len cbuffer \<noteq> 0
      then (let index = idx cbuffer;
                loop = True;
                loop1 = (if overflow cbuffer \<and> buffer cbuffer ! unat (start cbuffer) = eom
                         then False else loop);
                (cb1, data1, j1) = (if overflow cbuffer then bcpy cbuffer data dsize 0
                                    else (cbuffer, data, 0))
            in map_option (\<lambda>(cb2, data2, j2). (cb2\<lparr>overflow := False\<rparr>, data2, j2))
                 (popm_loop cb1 data1 dsize eom index j1 loop1))
      else Some (cbuffer, data, 0))"

text \<open>\<^verbatim>\<open>cbuffer_push\<close>; what it returns, \<^verbatim>\<open>TRUE\<close> or \<^verbatim>\<open>FALSE\<close>, is a boolean here.\<close>

definition cbuffer_push :: "cbuffer_t \<Rightarrow> uint8_t \<Rightarrow> cbuffer_t \<times> bool" where
  "cbuffer_push cbuffer rxc =
     (if overflow cbuffer then (cbuffer, False)
      else (let cb1 = (if start cbuffer \<noteq> 0
                       then (if uint (idx cbuffer) = uint (start cbuffer) - 1
                             then cbuffer\<lparr>overflow := True\<rparr> else cbuffer)
                       else (if idx cbuffer = TOP cbuffer
                             then cbuffer\<lparr>overflow := True\<rparr> else cbuffer));
                cb2 = cb1\<lparr>buffer := (buffer cb1)[unat (idx cb1) := rxc]\<rparr>;
                cb3 = (if idx cb2 = TOP cb2 then cb2\<lparr>idx := 0\<rparr>
                       else cb2\<lparr>idx := idx cb2 + 1\<rparr>)
            in (cb3\<lparr>len := len cb3 + 1\<rparr>, True)))"

subsection \<open>Abstraction of the ring\<close>

text \<open>
  \<open>capacity\<close> is the number of slots, \<open>backlog\<close> the \<open>len\<close> bytes from the read cursor on,
  in order, wrapping at the end of the array. \<open>cursors_ok\<close> says that the array has
  \<open>capacity\<close> slots, that both cursors are inside it and that the write cursor is \<open>len\<close>
  slots after the read cursor; \<open>cbuffer_inv\<close> adds that the overflow latch is set exactly
  when the ring is full. \<open>upto_eom\<close> is the message at the head of a byte sequence: the bytes
  up to and including the first terminator, or all of them when there is none.
  \<open>push_all\<close> pushes a sequence of bytes and collects what each push returns; \<open>run_ops\<close>
  applies a sequence of operations of the ring.
\<close>

definition capacity :: "cbuffer_t \<Rightarrow> nat" where
  "capacity cb = unat (TOP cb) + 1"

definition backlog :: "cbuffer_t \<Rightarrow> uint8_t list" where
  "backlog cb = map (\<lambda>k. buffer cb ! ((unat (start cb) + k) mod capacity cb)) [0..<unat (len cb)]"

definition cursors_ok :: "cbuffer_t \<Rightarrow> bool" where
  "cursors_ok cb \<longleftrightarrow>
     length (buffer cb) = capacity cb \<and> unat (size_cb cb) = capacity cb \<and>
     start cb \<le> TOP cb \<and> idx cb \<le> TOP cb \<and> unat (len cb) \<le> capacity cb \<and>
     unat (idx cb) = (unat (start cb) + unat (len cb)) mod capacity cb"

fun upto_eom :: "uint8_t \<Rightarrow> uint8_t list \<Rightarrow> uint8_t list" where
  "upto_eom eom [] = []"
| "upto_eom eom (b # bs) = (if b = eom then [b] else b # upto_eom eom bs)"

definition cbuffer_inv :: "cbuffer_t \<Rightarrow> bool" where
  "cbuffer_inv cb \<longleftrightarrow> cursors_ok cb \<and> (overflow cb \<longleftrightarrow> unat (len cb) = capacity cb)"

fun push_all :: "cbuffer_t \<Rightarrow> uint8_t list \<Rightarrow> cbuffer_t \<times> bool list" where
  "push_all cbuffer [] = (cbuffer, [])"
| "push_all cbuffer (rxc # rest) =
     (case cbuffer_push cbuffer rxc of
        (cb1, ok) \<Rightarrow> (case push_all cb1 rest of (cb2, oks) \<Rightarrow> (cb2, ok # oks)))"

datatype cb_op = Push uint8_t | Pop "uint8_t list" uint8_t
  | Pop_until "uint8_t list" uint8_t uint8_t | Clear

fun apply_op :: "cbuffer_t \<Rightarrow> cb_op \<Rightarrow> cbuffer_t option" where
  "apply_op cb (Push rxc) = Some (fst (cbuffer_push cb rxc))"
| "apply_op cb (Pop data dsize) = Some (fst (cbuffer_pop cb data dsize))"
| "apply_op cb (Pop_until data dsize eom) = map_option fst (cbuffer_popm cb data dsize eom)"
| "apply_op cb Clear = Some (cbuffer_clear cb)"

fun run_ops :: "cbuffer_t \<Rightarrow> cb_op list \<Rightarrow> cbuffer_t option" where
  "run_ops cb [] = Some cb"
| "run_ops cb (c # cs) = (case apply_op cb c of None \<Rightarrow> None | Some cb' \<Rightarrow> run_ops cb' cs)"

section \<open>Serial line (usart.c)\<close>

text \<open>
  \<^verbatim>\<open>struct usart_t\<close>: the receive ring, the transmit buffer and the flags. The flag byte is
  the two bits \<open>b0\<close>, \<open>b1\<close> and the six-bit field \<open>eol\<close>, a \<open>6 word\<close>.
\<close>

record usart_t =
  rx :: cbuffer_t
  tx :: "uint8_t list"
  tx_size :: uint8_t
  b0 :: bool
  b1 :: bool
  eol :: "6 word"

text \<open>
  \<^verbatim>\<open>ISR(USART0_RX_vect)\<close>. \<open>UDR0\<close> is the byte in the receive register. \<open>USART0_EOL\<close> is the
  compile-time option: \<open>None\<close> when the macro is not defined.
\<close>

definition ISR_USART0_RX_vect :: "uint8_t option \<Rightarrow> usart_t \<Rightarrow> uint8_t \<Rightarrow> usart_t" where
  "ISR_USART0_RX_vect USART0_EOL usart0 UDR0 =
     (let rxc = UDR0;
          u1 = (case USART0_EOL of
                  None \<Rightarrow> usart0
                | Some e \<Rightarrow> if rxc = e then usart0\<lparr>eol := eol usart0 + 1\<rparr> else usart0)
      in u1\<lparr>rx := fst (cbuffer_push (rx u1) rxc)\<rparr>)"

text \<open>\<^verbatim>\<open>ISR(USART1_RX_vect)\<close>, the same handler on the second port.\<close>

definition ISR_USART1_RX_vect :: "uint8_t option \<Rightarrow> usart_t \<Rightarrow> uint8_t \<Rightarrow> usart_t" where
  "ISR_USART1_RX_vect USART1_EOL usart1 UDR1 =
     (let rxc = UDR1;
          u1 = (case USART1_EOL of
                  None \<Rightarrow> usart1
                | Some e \<Rightarrow> if rxc = e then usart1\<lparr>eol := eol usart1 + 1\<rparr> else usart1)
      in u1\<lparr>rx := fst (cbuffer_push (rx u1) rxc)\<rparr>)"

text \<open>
  The reader is on port 1 (\<^verbatim>\<open>RFID_USART_PORT\<close>), so the board is modelled with that port
  only, built with \<^verbatim>\<open>USE_USART1\<close>, and the functions below are the \<^verbatim>\<open>port != 0\<close> branches of
  usart.c. The state of the board:
  \<^item> \<open>usart1\<close>: the struct behind the global pointer;
  \<^item> \<open>USART1_EOL\<close>: the compile-time option, never written;
  \<^item> \<open>RXCIE1\<close>: whether the receive interrupt is enabled;
  \<^item> \<open>UDR1_out\<close>: the bytes written to the transmit register so far;
  \<^item> \<open>line_in\<close>: the bytes the line will deliver, one list for each interval of 10 ms of
    waiting, in order. Nothing arrives once the list is used up.
  The receive interrupt runs during the waits only, once for each byte of the interval.
\<close>

record board_t =
  usart1 :: usart_t
  USART1_EOL :: "uint8_t option"
  RXCIE1 :: bool
  UDR1_out :: "uint8_t list"
  line_in :: "uint8_t list list"

definition delay_10ms :: "board_t \<Rightarrow> board_t" where
  "delay_10ms w =
     (case line_in w of
        [] \<Rightarrow> w
      | bytes # later \<Rightarrow>
          (if RXCIE1 w
           then w\<lparr>usart1 := foldl (ISR_USART1_RX_vect (USART1_EOL w)) (usart1 w) bytes,
                  line_in := later\<rparr>
           else w\<lparr>line_in := later\<rparr>))"

text \<open>\<^verbatim>\<open>_delay_ms(n)\<close> for a multiple of 10.\<close>

fun delay_ticks :: "nat \<Rightarrow> board_t \<Rightarrow> board_t" where
  "delay_ticks 0 w = w"
| "delay_ticks (Suc n) w = delay_ticks n (delay_10ms w)"

definition usart_resume :: "board_t \<Rightarrow> board_t" where
  "usart_resume w =
     w\<lparr>usart1 := (usart1 w)\<lparr>rx := cbuffer_clear (rx (usart1 w)), b0 := False, b1 := False,
            eol := 0, tx := (tx (usart1 w))[0 := 0]\<rparr>,
       RXCIE1 := True\<rparr>"

definition usart_get :: "board_t \<Rightarrow> uint8_t list \<Rightarrow> uint8_t \<Rightarrow> board_t \<times> uint8_t list \<times> uint8_t" where
  "usart_get w s dsize =
     (case cbuffer_pop (rx (usart1 w)) s dsize of
        (cb, s', ok) \<Rightarrow> (w\<lparr>usart1 := (usart1 w)\<lparr>rx := cb\<rparr>\<rparr>, s', ok))"

definition usart_putchar :: "board_t \<Rightarrow> uint8_t \<Rightarrow> board_t" where
  "usart_putchar w c = w\<lparr>UDR1_out := UDR1_out w @ [c]\<rparr>"

section \<open>Reader protocol (rfid\_m5.c)\<close>

text \<open>
  \<^verbatim>\<open>struct rfid_t\<close>. The fields \<^verbatim>\<open>size\<close>, \<^verbatim>\<open>data\<close> and \<^verbatim>\<open>len\<close> carry the suffix \<open>_rf\<close>, since
  the names are taken above. \<open>data_rf\<close> is the block behind the \<^verbatim>\<open>data\<close> pointer. The
  \<^verbatim>\<open>usart\<close> pointer is the board's \<open>usart1\<close>.
\<close>

record rfid_t =
  size_rf :: uint8_t
  data_rf :: "uint8_t list"
  soh :: uint8_t
  len_rf :: uint8_t
  opcode :: uint8_t
  status :: uint16_t
  crc :: uint16_t
  error :: uint8_t

definition TRUE :: uint8_t where "TRUE = 1"
definition FALSE :: uint8_t where "FALSE = 0"

text \<open>The loop of \<^verbatim>\<open>CRC_calcCrc8\<close>; the register behind \<^verbatim>\<open>crcReg\<close> is passed and returned.\<close>

function CRC_calcCrc8_loop :: "uint16_t \<Rightarrow> uint16_t \<Rightarrow> uint16_t \<Rightarrow> uint16_t \<Rightarrow> uint16_t" where
  "CRC_calcCrc8_loop i crcReg dcdBitMask u8Data =
     (if i < 8
      then (let xorFlag = crcReg AND 0x8000;
                c1 = push_bit 1 crcReg;
                bit = (if u8Data AND dcdBitMask = dcdBitMask then 1 else 0);
                c2 = c1 OR bit;
                c3 = (if xorFlag \<noteq> 0 then c2 XOR 0x1021 else c2)
            in CRC_calcCrc8_loop (i + 1) c3 (drop_bit 1 dcdBitMask) u8Data)
      else crcReg)"
  by pat_completeness auto
termination
proof (relation "measure (\<lambda>(i, crcReg, dcdBitMask, u8Data). 8 - unat i)", goal_cases)
  case 1
  show ?case by simp
next
  case (2 i crcReg dcdBitMask u8Data xorFlag c1 bit c2 c3)
  then have "unat i < 8"
    by (simp add: word_less_nat_alt)
  moreover from this have "unat (i + 1) = unat i + 1"
    by (simp add: unat_word_ariths)
  ultimately show ?case by simp
qed

declare CRC_calcCrc8_loop.simps [simp del]

definition CRC_calcCrc8 :: "uint16_t \<Rightarrow> uint16_t \<Rightarrow> uint16_t" where
  "CRC_calcCrc8 crcReg u8Data = CRC_calcCrc8_loop 0 crcReg 0x80 u8Data"

text \<open>The \<^verbatim>\<open>for\<close> loop of \<^verbatim>\<open>m5_crc\<close> over the payload.\<close>

function m5_crc_loop :: "rfid_t \<Rightarrow> uint8_t \<Rightarrow> uint16_t \<Rightarrow> uint16_t" where
  "m5_crc_loop rfid i crc16 =
     (if i < len_rf rfid
      then m5_crc_loop rfid (i + 1) (CRC_calcCrc8 crc16 (ucast (data_rf rfid ! unat i)))
      else crc16)"
  by pat_completeness auto
termination
proof (relation "measure (\<lambda>(rfid, i, crc16). unat (len_rf rfid) - unat i)", goal_cases)
  case 1
  show ?case by simp
next
  case (2 rfid i crc16)
  then have lt: "unat i < unat (len_rf rfid)"
    by (simp add: word_less_nat_alt)
  have "unat (len_rf rfid) < 2 ^ 8"
    using unsigned_less [of "len_rf rfid"] by simp
  with lt have "unat (i + 1) = unat i + 1"
    by (simp add: unat_word_ariths)
  with lt show ?case by simp
qed

declare m5_crc_loop.simps [simp del]

definition m5_crc :: "rfid_t \<Rightarrow> uint8_t \<Rightarrow> uint16_t" where
  "m5_crc rfid include_status =
     (let crc16 = 0xffff;
          crc16 = CRC_calcCrc8 crc16 (ucast (len_rf rfid));
          crc16 = CRC_calcCrc8 crc16 (ucast (opcode rfid));
          crc16 = (if include_status \<noteq> 0
                   then CRC_calcCrc8
                          (CRC_calcCrc8 crc16 (ucast (ucast (drop_bit 8 (status rfid)) :: uint8_t)))
                          (ucast (ucast (status rfid AND 0xff) :: uint8_t))
                   else crc16)
      in m5_crc_loop rfid 0 crc16)"

text \<open>The payload loop of \<^verbatim>\<open>tx_pkt\<close>.\<close>

function tx_pkt_loop :: "board_t \<Rightarrow> rfid_t \<Rightarrow> uint8_t \<Rightarrow> board_t" where
  "tx_pkt_loop w rfid i =
     (if i < len_rf rfid
      then tx_pkt_loop (usart_putchar w (data_rf rfid ! unat i)) rfid (i + 1)
      else w)"
  by pat_completeness auto
termination
proof (relation "measure (\<lambda>(w, rfid, i). unat (len_rf rfid) - unat i)", goal_cases)
  case 1
  show ?case by simp
next
  case (2 w rfid i)
  then have lt: "unat i < unat (len_rf rfid)"
    by (simp add: word_less_nat_alt)
  have "unat (len_rf rfid) < 2 ^ 8"
    using unsigned_less [of "len_rf rfid"] by simp
  with lt have "unat (i + 1) = unat i + 1"
    by (simp add: unat_word_ariths)
  with lt show ?case by simp
qed

declare tx_pkt_loop.simps [simp del]

definition tx_pkt :: "board_t \<Rightarrow> rfid_t \<Rightarrow> board_t" where
  "tx_pkt w rfid =
     (let w = usart_putchar w (soh rfid);
          w = usart_putchar w (len_rf rfid);
          w = usart_putchar w (opcode rfid);
          w = tx_pkt_loop w rfid 0;
          w = usart_putchar w (ucast (drop_bit 8 (crc rfid)))
      in usart_putchar w (ucast (crc rfid AND 0xff)))"

text \<open>The stages of \<^verbatim>\<open>rx_pkt\<close>, the macros it defines.\<close>

definition END :: uint8_t where "END = 0"
definition SOH :: uint8_t where "SOH = 1"
definition LEN :: uint8_t where "LEN = 2"
definition CMD :: uint8_t where "CMD = 3"
definition STATUS :: uint8_t where "STATUS = 4"
definition DATA :: uint8_t where "DATA = 5"
definition CRC :: uint8_t where "CRC = 6"

text \<open>
  \<^verbatim>\<open>(uint8_t *)&x + 1 - i\<close> for a 16-bit field \<open>x\<close> on the little-endian AVR: byte 1 is the
  high byte, byte 0 the low one. \<open>byte_of\<close> reads the byte at an offset and \<open>byte_upd\<close>
  writes it; an offset other than 0 or 1 is outside the field and never used.
\<close>

definition byte_of :: "uint16_t \<Rightarrow> int \<Rightarrow> uint8_t" where
  "byte_of x k = (if k = 1 then ucast (drop_bit 8 x) else ucast x)"

definition byte_upd :: "uint16_t \<Rightarrow> int \<Rightarrow> uint8_t \<Rightarrow> uint16_t" where
  "byte_upd x k b =
     (if k = 1 then (x AND 0x00ff) OR push_bit 8 (ucast b) else (x AND 0xff00) OR ucast b)"

text \<open>
  The body of \<^verbatim>\<open>case STATUS\<close>, which \<^verbatim>\<open>case CMD\<close> falls into: there is no \<^verbatim>\<open>break\<close> between
  the two.
\<close>

definition rx_case_STATUS :: "board_t \<Rightarrow> rfid_t \<Rightarrow> uint8_t \<Rightarrow> uint16_t
    \<Rightarrow> board_t \<times> rfid_t \<times> uint8_t \<times> uint16_t" where
  "rx_case_STATUS w rfid i timeout =
     (if i < 2
      then (case usart_get w [byte_of (status rfid) (1 - uint i)] 1 of
              (w', s, ok) \<Rightarrow>
                (w', rfid\<lparr>status := byte_upd (status rfid) (1 - uint i) (s ! 0)\<rparr>,
                 if ok \<noteq> 0 then i + 1 else i, timeout))
      else (w, rfid\<lparr>error := DATA\<rparr>, 0, timeout))"

text \<open>
  The \<^verbatim>\<open>switch\<close> of \<^verbatim>\<open>rx_pkt\<close>: one pass through the body of the loop, after the wait and
  before \<^verbatim>\<open>timeout--\<close>.
\<close>

definition rx_switch :: "board_t \<Rightarrow> rfid_t \<Rightarrow> uint8_t \<Rightarrow> uint16_t
    \<Rightarrow> board_t \<times> rfid_t \<times> uint8_t \<times> uint16_t" where
  "rx_switch w rfid i timeout =
     (if error rfid = SOH
      then (case usart_get w [soh rfid] 1 of
              (w', s, ok) \<Rightarrow>
                (let r1 = rfid\<lparr>soh := s ! 0\<rparr>
                 in (w', if ok \<noteq> 0 \<and> soh r1 = 0xff then r1\<lparr>error := LEN\<rparr> else r1, i, timeout)))
      else if error rfid = LEN
      then (case usart_get w [len_rf rfid] 1 of
              (w', s, ok) \<Rightarrow>
                (let r1 = rfid\<lparr>len_rf := s ! 0\<rparr>
                 in (w', if ok \<noteq> 0 then r1\<lparr>error := CMD\<rparr> else r1, i, timeout)))
      else if error rfid = CMD
      then (case usart_get w [opcode rfid] 1 of
              (w', s, ok) \<Rightarrow>
                (let r1 = rfid\<lparr>opcode := s ! 0\<rparr>
                 in (if ok \<noteq> 0 then rx_case_STATUS w' (r1\<lparr>error := STATUS\<rparr>) 0 timeout
                     else rx_case_STATUS w' r1 i timeout)))
      else if error rfid = STATUS
      then rx_case_STATUS w rfid i timeout
      else if error rfid = DATA
      then (if i < len_rf rfid
            then (case usart_get w (drop (unat i) (data_rf rfid)) 1 of
                    (w', s, ok) \<Rightarrow>
                      (w', rfid\<lparr>data_rf := take (unat i) (data_rf rfid) @ s\<rparr>,
                       if ok \<noteq> 0 then i + 1 else i, timeout))
            else (w, rfid\<lparr>error := CRC\<rparr>, 0, timeout))
      else if error rfid = CRC
      then (if i < 2
            then (case usart_get w [byte_of (crc rfid) (1 - uint i)] 1 of
                    (w', s, ok) \<Rightarrow>
                      (w', rfid\<lparr>crc := byte_upd (crc rfid) (1 - uint i) (s ! 0)\<rparr>,
                       if ok \<noteq> 0 then i + 1 else i, timeout))
            else (w, if m5_crc rfid TRUE = crc rfid then rfid\<lparr>error := END\<rparr> else rfid, i, 1))
      else (w, rfid, i, 1))"

text \<open>One iteration of the \<^verbatim>\<open>while\<close> loop of \<^verbatim>\<open>rx_pkt\<close>: the wait, the switch, \<^verbatim>\<open>timeout--\<close>.\<close>

definition rx_iteration :: "board_t \<Rightarrow> rfid_t \<Rightarrow> uint8_t \<Rightarrow> uint16_t
    \<Rightarrow> board_t \<times> rfid_t \<times> uint8_t \<times> uint16_t" where
  "rx_iteration w rfid i timeout =
     (case rx_switch (delay_10ms w) rfid i timeout of
        (w', rfid', i', timeout') \<Rightarrow> (w', rfid', i', timeout' - 1))"

text \<open>
  The switch leaves the budget as it is or sets it to 1, so every iteration lowers it:
  the loop of \<^verbatim>\<open>rx_pkt\<close> ends.
\<close>

lemma rx_case_STATUS_timeout:
  "snd (snd (snd (rx_case_STATUS w rfid i timeout))) = timeout"
  by (simp add: rx_case_STATUS_def case_prod_beta)

lemma rx_switch_timeout:
  "snd (snd (snd (rx_switch w rfid i timeout))) = timeout \<or>
   snd (snd (snd (rx_switch w rfid i timeout))) = 1"
  by (simp add: rx_switch_def rx_case_STATUS_timeout case_prod_beta Let_def)

function rx_pkt_loop :: "board_t \<Rightarrow> rfid_t \<Rightarrow> uint8_t \<Rightarrow> uint16_t \<Rightarrow> board_t \<times> rfid_t" where
  "rx_pkt_loop w rfid i timeout =
     (if timeout \<noteq> 0
      then (case rx_iteration w rfid i timeout of
              (w', rfid', i', timeout') \<Rightarrow> rx_pkt_loop w' rfid' i' timeout')
      else (w, rfid))"
  by pat_completeness auto
termination
proof (relation "measure (\<lambda>(w, rfid, i, timeout). unat timeout)", goal_cases)
  case 1
  show ?case by simp
next
  case (2 w rfid i timeout w' x2 rfid' y2 i' timeout')
  let ?t = "snd (snd (snd (rx_switch (delay_10ms w) rfid i timeout)))"
  from 2 have t': "timeout' = ?t - 1"
    by (simp add: rx_iteration_def case_prod_beta)
  from 2(1) have pos: "0 < unat timeout"
    by (simp add: unat_gt_0)
  from rx_switch_timeout [of "delay_10ms w" rfid i timeout]
  have "unat (?t - 1) < unat timeout"
  proof
    assume "?t = timeout"
    with 2(1) pos show ?thesis by (simp add: unat_minus_one)
  next
    assume "?t = 1"
    with pos show ?thesis by simp
  qed
  with t' show ?case by simp
qed

declare rx_pkt_loop.simps [simp del]

definition rx_pkt :: "board_t \<Rightarrow> rfid_t \<Rightarrow> uint16_t \<Rightarrow> board_t \<times> rfid_t \<times> uint8_t" where
  "rx_pkt w rfid timeout =
     (case rx_pkt_loop w (rfid\<lparr>error := SOH\<rparr>) 0 timeout of
        (w', rfid') \<Rightarrow> (w', rfid', error rfid'))"

definition send_cmd :: "board_t \<Rightarrow> rfid_t \<Rightarrow> board_t \<times> rfid_t \<times> uint8_t" where
  "send_cmd w rfid =
     (let cmd = opcode rfid;
          r1 = rfid\<lparr>soh := 0xff\<rparr>;
          r2 = r1\<lparr>crc := m5_crc r1 FALSE\<rparr>;
          w1 = tx_pkt w r2
      in (case rx_pkt w1 r2 500 of
            (w2, r3, e) \<Rightarrow>
              (w2, r3, if error r3 = 0 \<and> opcode r3 = cmd \<and> status r3 = 0 then TRUE else FALSE)))"

text \<open>
  \<^verbatim>\<open>rfid_resume\<close>. \<open>RFID_M5_LOWTXPWR\<close> is the compile-time option, \<open>mem\<close> the block that
  \<^verbatim>\<open>malloc(0xff)\<close> returns. The value of each \<^verbatim>\<open>send_cmd()\<close> is dropped, as in the source: the
  steps look at \<^verbatim>\<open>rfid->error\<close> only.
\<close>

definition rfid_resume :: "bool \<Rightarrow> uint8_t list \<Rightarrow> board_t \<Rightarrow> rfid_t \<Rightarrow> board_t \<times> rfid_t \<times> uint8_t" where
  "rfid_resume RFID_M5_LOWTXPWR mem w rfid =
     (let r = rfid\<lparr>data_rf := mem\<rparr>;
          w = usart_resume w;
          w = delay_ticks 10 w;
          (w, r, ok) = send_cmd w (r\<lparr>len_rf := 0, opcode := 0x04\<rparr>);
          r = (if error r \<noteq> 0 \<and> status r = 0x0101 then r\<lparr>error := FALSE\<rparr> else r);
          (w, r) = (if error r = 0
                    then (case send_cmd w (r\<lparr>len_rf := 0x01, opcode := 0x97,
                                 data_rf := (data_rf r)[0 := 0x02]\<rparr>) of
                            (w', r', ok) \<Rightarrow> (w', r'))
                    else (w, r));
          (w, r) = (if error r = 0
                    then (case send_cmd w (r\<lparr>len_rf := 0x02, opcode := 0x93,
                                 data_rf := (data_rf r)[0 := 0, 1 := 0x05]\<rparr>) of
                            (w', r', ok) \<Rightarrow> (w', r'))
                    else (w, r));
          (w, r) = (if error r = 0
                    then (case send_cmd w (r\<lparr>len_rf := 0x01, opcode := 0x98,
                                 data_rf := (data_rf r)[0 := 0x03]\<rparr>) of
                            (w', r', ok) \<Rightarrow> (w', r'))
                    else (w, r));
          (w, r) = (if RFID_M5_LOWTXPWR \<and> error r = 0
                    then (case send_cmd w (r\<lparr>len_rf := 0x02, opcode := 0x92,
                                 data_rf := (data_rf r)[0 := 0x06, 1 := 0xf2]\<rparr>) of
                            (w', r', ok) \<Rightarrow> (w', r'))
                    else (w, r));
          (w, r) = (if error r = 0
                    then (case send_cmd w (r\<lparr>len_rf := 0x03, opcode := 0x9a,
                                 data_rf := (data_rf r)[0 := 0x01, 1 := 0x02, 2 := 0x01]\<rparr>) of
                            (w', r', ok) \<Rightarrow> (w', r'))
                    else (w, r))
      in (w, r, error r))"

section \<open>Definitions that follow the specification\<close>

text \<open>
  The checksum as the specification words it: a 16-bit register, polynomial \<open>0x1021\<close>,
  initial value \<open>0xFFFF\<close>. \<open>crc16_bit\<close> is one shift/XOR step taking one data bit,
  \<open>crc16_byte\<close> the eight steps of a byte, most significant bit first, and \<open>crc_ccitt\<close> the
  checksum of a sequence of bytes.
\<close>

definition crc16_bit :: "uint16_t \<Rightarrow> bool \<Rightarrow> uint16_t" where
  "crc16_bit reg b =
     (let shifted = push_bit 1 reg OR (if b then 1 else 0)
      in if bit reg 15 then shifted XOR 0x1021 else shifted)"

definition crc16_byte :: "uint16_t \<Rightarrow> uint8_t \<Rightarrow> uint16_t" where
  "crc16_byte reg b = foldl crc16_bit reg (map (bit b) [7, 6, 5, 4, 3, 2, 1, 0])"

definition crc_ccitt :: "uint8_t list \<Rightarrow> uint16_t" where
  "crc_ccitt bytes = foldl crc16_byte 0xffff bytes"

section \<open>Example inputs\<close>

text \<open>
  A board just resumed: the ring of 16 bytes empty, the receive interrupt enabled, nothing
  sent yet, and \<open>line\<close> what the reader will send. \<open>ex_boot\<close> is the session record holding
  the boot command (opcode \<open>0x04\<close>, no payload) and a block of 255 bytes for the payload.
\<close>

definition ex_board :: "uint8_t list list \<Rightarrow> board_t" where
  "ex_board line =
     \<lparr>usart1 = \<lparr>rx = cbuffer_init 16 (replicate 16 0), tx = replicate 16 0, tx_size = 16,
        b0 = False, b1 = False, eol = 0\<rparr>,
      USART1_EOL = None, RXCIE1 = True, UDR1_out = [], line_in = line\<rparr>"

definition ex_boot :: rfid_t where
  "ex_boot = \<lparr>size_rf = 16, data_rf = replicate 255 0, soh = 0, len_rf = 0, opcode = 0x04,
     status = 0, crc = 0, error = 0\<rparr>"

text \<open>
  A reader that answers each of the five commands of the bring-up sequence with a
  well-formed frame whose status word is \<open>0x0100\<close>, an error. The first ten intervals are
  the 100 ms that \<^verbatim>\<open>rfid_resume\<close> waits; each answer arrives during the first wait of the
  receive loop, which takes nine iterations to read it.
\<close>

definition ex_error_replies :: "uint8_t list list" where
  "ex_error_replies =
     replicate 10 [] @ [[0xff, 0x00, 0x04, 0x01, 0x00, 0xc5, 0x44]] @
     replicate 8 [] @ [[0xff, 0x00, 0x97, 0x01, 0x00, 0x76, 0x9e]] @
     replicate 8 [] @ [[0xff, 0x00, 0x93, 0x01, 0x00, 0x36, 0x1a]] @
     replicate 8 [] @ [[0xff, 0x00, 0x98, 0x01, 0x00, 0x87, 0x71]] @
     replicate 8 [] @ [[0xff, 0x00, 0x9a, 0x01, 0x00, 0xa7, 0x33]]"



section \<open>Properties\<close>

subsection \<open>The ring buffer\<close>

lemma u8_bound: "unat (w :: uint8_t) < 256"
  using unsigned_less [of w, where 'a = nat] by simp

lemma unat_inc: "unat (w :: uint8_t) < 255 \<Longrightarrow> unat (w + 1) = unat w + 1"
  by (simp add: unat_word_ariths)

lemma unat_dec: "(w :: uint8_t) \<noteq> 0 \<Longrightarrow> unat (w - 1) = unat w - 1"
  by (simp add: unat_minus_one)

lemma cursors_ok_TOP: "cursors_ok cb \<Longrightarrow> unat (TOP cb) < 255"
  using u8_bound [of "size_cb cb"] by (simp add: cursors_ok_def capacity_def)

lemma bcpy_start:
  assumes "cursors_ok cb"
  shows "unat (start (fst (bcpy cb data sz j))) = (unat (start cb) + 1) mod capacity cb"
proof (cases "start cb = TOP cb")
  case True
  then show ?thesis by (simp add: bcpy_def Let_def capacity_def)
next
  case False
  with assms have "unat (start cb) < unat (TOP cb)"
    by (simp add: cursors_ok_def word_le_nat_alt word_unat_eq_iff)
  with cursors_ok_TOP [OF assms] False show ?thesis
    by (simp add: bcpy_def Let_def capacity_def unat_inc)
qed

lemma bcpy_fields:
  "buffer (fst (bcpy cb data sz j)) = buffer cb"
  "idx (fst (bcpy cb data sz j)) = idx cb"
  "TOP (fst (bcpy cb data sz j)) = TOP cb"
  "size_cb (fst (bcpy cb data sz j)) = size_cb cb"
  "overflow (fst (bcpy cb data sz j)) = overflow cb"
  "len (fst (bcpy cb data sz j)) = len cb - 1"
  "capacity (fst (bcpy cb data sz j)) = capacity cb"
  by (simp_all add: bcpy_def Let_def capacity_def)

lemma bcpy_out:
  "fst (snd (bcpy cb data sz j)) = (if j < sz then data[unat j := buffer cb ! unat (start cb)] else data)"
  "snd (snd (bcpy cb data sz j)) = (if j < sz then j + 1 else j)"
  by (simp_all add: bcpy_def Let_def)

lemma bcpy_cursors_ok:
  assumes ok: "cursors_ok cb" and ne: "len cb \<noteq> 0"
  shows "cursors_ok (fst (bcpy cb data sz j))"
proof -
  let ?C = "capacity cb"
  have l: "unat (len cb - 1) = unat (len cb) - 1" and pos: "0 < unat (len cb)"
    using ne by (simp_all add: unat_dec unat_gt_0)
  have s: "unat (start (fst (bcpy cb data sz j))) = (unat (start cb) + 1) mod ?C"
    by (rule bcpy_start [OF ok])
  have C: "0 < ?C" by (simp add: capacity_def)
  have "(unat (start cb) + 1) mod ?C < ?C" using C by simp
  then have s_le: "start (fst (bcpy cb data sz j)) \<le> TOP cb"
    by (simp add: word_le_nat_alt s capacity_def)
  have "((unat (start cb) + 1) mod ?C + (unat (len cb) - 1)) mod ?C
      = (unat (start cb) + 1 + (unat (len cb) - 1)) mod ?C"
    by (simp add: mod_add_left_eq)
  also have "\<dots> = (unat (start cb) + unat (len cb)) mod ?C"
    using pos by simp
  finally have i: "unat (idx cb) = ((unat (start cb) + 1) mod ?C + (unat (len cb) - 1)) mod ?C"
    using ok by (simp add: cursors_ok_def)
  have "unat (len cb) \<le> ?C"
    using ok by (simp add: cursors_ok_def)
  then have "unat (len cb) - 1 \<le> ?C"
    by arith
  then show ?thesis
    using ok s_le i by (simp add: cursors_ok_def bcpy_fields s l)
qed

lemma bcpy_backlog:
  assumes ok: "cursors_ok cb" and ne: "len cb \<noteq> 0"
  shows "backlog cb = buffer cb ! unat (start cb) # backlog (fst (bcpy cb data sz j))"
proof -
  let ?C = "capacity cb"
  let ?f = "\<lambda>k. buffer cb ! ((unat (start cb) + k) mod ?C)"
  have l: "unat (len cb - 1) = unat (len cb) - 1" and pos: "0 < unat (len cb)"
    using ne by (simp_all add: unat_dec unat_gt_0)
  have s: "unat (start (fst (bcpy cb data sz j))) = (unat (start cb) + 1) mod ?C"
    by (rule bcpy_start [OF ok])
  have lt: "unat (start cb) < ?C"
    using ok by (simp add: cursors_ok_def word_le_nat_alt capacity_def)
  from pos obtain n where n: "unat (len cb) = Suc n"
    by (cases "unat (len cb)") auto
  have "backlog cb = ?f 0 # map (\<lambda>k. ?f (Suc k)) [0..<n]"
    unfolding backlog_def n by (simp add: upt_conv_Cons map_Suc_upt [symmetric] del: upt_Suc)
  moreover have "?f 0 = buffer cb ! unat (start cb)"
    using lt by simp
  moreover have "backlog (fst (bcpy cb data sz j)) = map (\<lambda>k. ?f (Suc k)) [0..<n]"
    by (simp add: backlog_def bcpy_fields s l n mod_add_left_eq)
  ultimately show ?thesis by simp
qed

lemma start_eq_idx:
  assumes ok: "cursors_ok cb" and lt: "unat (len cb) < capacity cb"
  shows "start cb = idx cb \<longleftrightarrow> len cb = 0"
proof -
  let ?C = "capacity cb"
  have s: "unat (start cb) < ?C"
    using ok by (simp add: cursors_ok_def word_le_nat_alt capacity_def)
  have i: "unat (idx cb) = (unat (start cb) + unat (len cb)) mod ?C"
    using ok by (simp add: cursors_ok_def)
  show ?thesis
  proof
    assume "start cb = idx cb"
    with i have e: "(unat (start cb) + unat (len cb)) mod ?C = unat (start cb)" by simp
    have "unat (len cb) = 0"
    proof (cases "unat (start cb) + unat (len cb) < ?C")
      case True
      with e show ?thesis by simp
    next
      case False
      with s lt have "(unat (start cb) + unat (len cb)) mod ?C = unat (start cb) + unat (len cb) - ?C"
        by (simp add: mod_if)
      with e False lt show ?thesis by simp
    qed
    then show "len cb = 0" by (simp add: unat_eq_0)
  next
    assume "len cb = 0"
    with i s show "start cb = idx cb" by (simp add: word_unat_eq_iff)
  qed
qed


lemma take_update_here: "n < length xs \<Longrightarrow> take (Suc n) (xs[n := b]) = take n xs @ [b]"
  by (simp add: take_Suc_conv_app_nth)

lemma pop_loop_spec:
  assumes "cursors_ok cb" and "unat (len cb) < capacity cb" and "unat (len cb) = k"
  shows "\<exists>cb' data' j'. pop_loop cb data sz (idx cb) j = (cb', data', j') \<and>
    cursors_ok cb' \<and>
    backlog cb' = drop (min k (unat sz - unat j)) (backlog cb) \<and>
    unat j' = unat j + min k (unat sz - unat j) \<and>
    unat (len cb') = k - min k (unat sz - unat j) \<and>
    length data' = length data \<and>
    (unat sz \<le> length data \<longrightarrow>
       take (unat j') data' = take (unat j) data @ take (min k (unat sz - unat j)) (backlog cb)) \<and>
    buffer cb' = buffer cb \<and> idx cb' = idx cb \<and> TOP cb' = TOP cb \<and>
    size_cb cb' = size_cb cb \<and> overflow cb' = overflow cb"
  using assms
proof (induction k arbitrary: cb data j)
  case 0
  then have "len cb = 0" by (simp add: unat_eq_0)
  with 0 have "start cb = idx cb" by (simp add: start_eq_idx)
  then have "pop_loop cb data sz (idx cb) j = (cb, data, j)"
    by (subst pop_loop.simps) simp
  with 0 show ?case by simp
next
  case (Suc k)
  then have ne: "len cb \<noteq> 0" by auto
  with Suc.prems have sne: "start cb \<noteq> idx cb" by (simp add: start_eq_idx)
  show ?case
  proof (cases "j < sz")
    case False
    then have "pop_loop cb data sz (idx cb) j = (cb, data, j)"
      by (subst pop_loop.simps) simp
    moreover from False have "unat sz - unat j = 0"
      by (simp add: word_less_nat_alt)
    ultimately show ?thesis using Suc.prems by simp
  next
    case True
    let ?b = "buffer cb ! unat (start cb)"
    let ?cb1 = "fst (bcpy cb data sz j)"
    let ?d1 = "data[unat j := ?b]"
    have lt: "unat j < unat sz" using True by (simp add: word_less_nat_alt)
    then have j1: "unat (j + 1) = unat j + 1"
      using u8_bound [of sz] by (simp add: unat_inc)
    have unf: "pop_loop cb data sz (idx cb) j = pop_loop ?cb1 ?d1 sz (idx ?cb1) (j + 1)"
      using True sne by (subst pop_loop.simps) (simp add: bcpy_out bcpy_fields case_prod_beta)
    have ok1: "cursors_ok ?cb1" by (rule bcpy_cursors_ok [OF Suc.prems(1) ne])
    have l1: "unat (len ?cb1) = k" using Suc.prems(3) ne by (simp add: bcpy_fields unat_dec)
    have c1: "unat (len ?cb1) < capacity ?cb1" using Suc.prems(2,3) l1 by (simp add: bcpy_fields)
    have bl: "backlog cb = ?b # backlog ?cb1" by (rule bcpy_backlog [OF Suc.prems(1) ne])
    from Suc.IH [where cb = ?cb1 and data = ?d1 and j = "j + 1", OF ok1 c1 l1]
    obtain cb' data' j' where r: "pop_loop ?cb1 ?d1 sz (idx ?cb1) (j + 1) = (cb', data', j')"
      and ok': "cursors_ok cb'"
      and bl': "backlog cb' = drop (min k (unat sz - unat (j + 1))) (backlog ?cb1)"
      and j': "unat j' = unat (j + 1) + min k (unat sz - unat (j + 1))"
      and l': "unat (len cb') = k - min k (unat sz - unat (j + 1))"
      and ld: "length data' = length ?d1"
      and d': "unat sz \<le> length ?d1 \<longrightarrow> take (unat j') data' =
          take (unat (j + 1)) ?d1 @ take (min k (unat sz - unat (j + 1))) (backlog ?cb1)"
      and f: "buffer cb' = buffer ?cb1" "idx cb' = idx ?cb1" "TOP cb' = TOP ?cb1"
        "size_cb cb' = size_cb ?cb1" "overflow cb' = overflow ?cb1"
      by blast
    have m: "min (Suc k) (unat sz - unat j) = Suc (min k (unat sz - unat (j + 1)))"
      using lt j1 by simp
    have "unat sz \<le> length data \<longrightarrow> take (unat j') data' =
        take (unat j) data @ take (min (Suc k) (unat sz - unat j)) (backlog cb)"
    proof
      assume le: "unat sz \<le> length data"
      with lt have "unat j < length data" by simp
      then have "take (unat (j + 1)) ?d1 = take (unat j) data @ [?b]"
        by (simp add: j1 take_update_here)
      with d' le show "take (unat j') data' =
          take (unat j) data @ take (min (Suc k) (unat sz - unat j)) (backlog cb)"
        by (simp add: m bl)
    qed
    with r ok' bl' j' l' ld f show ?thesis
      by (simp add: unf m bl j1 bcpy_fields)
  qed
qed

lemma popm_loop_spec:
  assumes "cursors_ok cb" and "unat (len cb) < capacity cb" and "unat (len cb) = k"
    and "msg = (if loop then upto_eom eom (backlog cb) else [])"
  shows "\<exists>cb' data' j'. popm_loop cb data sz eom (idx cb) j loop = Some (cb', data', j') \<and>
    cursors_ok cb' \<and>
    backlog cb' = drop (length msg) (backlog cb) \<and>
    unat j' = unat j + min (length msg) (unat sz - unat j) \<and>
    unat (len cb') = k - length msg \<and>
    unat (len cb') < capacity cb' \<and>
    length data' = length data \<and>
    (unat sz \<le> length data \<longrightarrow>
       take (unat j') data' = take (unat j) data @ take (unat sz - unat j) msg) \<and>
    buffer cb' = buffer cb \<and> idx cb' = idx cb \<and> TOP cb' = TOP cb \<and>
    size_cb cb' = size_cb cb \<and> overflow cb' = overflow cb"
  using assms
proof (induction k arbitrary: cb data j loop msg)
  case 0
  then have "len cb = 0" by (simp add: unat_eq_0)
  with 0 have "start cb = idx cb" and "backlog cb = []"
    by (simp_all add: start_eq_idx backlog_def)
  moreover from this have "popm_loop cb data sz eom (idx cb) j loop = Some (cb, data, j)"
    by (subst popm_loop.simps) simp
  ultimately show ?case using 0 by simp
next
  case (Suc k)
  show ?case
  proof (cases loop)
    case False
    then have "popm_loop cb data sz eom (idx cb) j loop = Some (cb, data, j)"
      by (subst popm_loop.simps) simp
    with False Suc.prems show ?thesis by simp
  next
    case True
    from Suc.prems have ne: "len cb \<noteq> 0" by auto
    with Suc.prems have sne: "start cb \<noteq> idx cb" by (simp add: start_eq_idx)
    let ?b = "buffer cb ! unat (start cb)"
    let ?cb1 = "fst (bcpy cb data sz j)"
    let ?d1 = "fst (snd (bcpy cb data sz j))"
    let ?j1 = "snd (snd (bcpy cb data sz j))"
    let ?loop1 = "if ?b = eom then False else loop"
    let ?msg1 = "if ?loop1 then upto_eom eom (backlog ?cb1) else []"
    have unf: "popm_loop cb data sz eom (idx cb) j loop = popm_loop ?cb1 ?d1 sz eom (idx ?cb1) ?j1 ?loop1"
      using True sne by (subst popm_loop.simps) (simp add: bcpy_fields)
    have ok1: "cursors_ok ?cb1" by (rule bcpy_cursors_ok [OF Suc.prems(1) ne])
    have l1: "unat (len ?cb1) = k" using Suc.prems(3) ne by (simp add: bcpy_fields unat_dec)
    have c1: "unat (len ?cb1) < capacity ?cb1" using Suc.prems(2,3) l1 by (simp add: bcpy_fields)
    have bl: "backlog cb = ?b # backlog ?cb1" by (rule bcpy_backlog [OF Suc.prems(1) ne])
    have msg: "msg = ?b # ?msg1" using True Suc.prems(4) by (simp add: bl)
    from Suc.IH [where cb = ?cb1 and data = ?d1 and j = ?j1 and loop = ?loop1 and msg = ?msg1,
        OF ok1 c1 l1 refl]
    obtain cb' data' j' where r: "popm_loop ?cb1 ?d1 sz eom (idx ?cb1) ?j1 ?loop1 = Some (cb', data', j')"
      and ok': "cursors_ok cb'"
      and bl': "backlog cb' = drop (length ?msg1) (backlog ?cb1)"
      and j': "unat j' = unat ?j1 + min (length ?msg1) (unat sz - unat ?j1)"
      and l': "unat (len cb') = k - length ?msg1" "unat (len cb') < capacity cb'"
      and ld: "length data' = length ?d1"
      and d': "unat sz \<le> length ?d1 \<longrightarrow> take (unat j') data' =
          take (unat ?j1) ?d1 @ take (unat sz - unat ?j1) ?msg1"
      and f: "buffer cb' = buffer ?cb1" "idx cb' = idx ?cb1" "TOP cb' = TOP ?cb1"
        "size_cb cb' = size_cb ?cb1" "overflow cb' = overflow ?cb1"
      by blast
    have ld1: "length ?d1 = length data" by (simp add: bcpy_out)
    show ?thesis
    proof (cases "j < sz")
      case jlt: True
      have lt: "unat j < unat sz" using jlt by (simp add: word_less_nat_alt)
      then have j1: "unat (j + 1) = unat j + 1"
        using u8_bound [of sz] by (simp add: unat_inc)
      have "unat sz \<le> length data \<longrightarrow> take (unat j') data' =
          take (unat j) data @ take (unat sz - unat j) msg"
      proof
        assume le: "unat sz \<le> length data"
        with lt have "unat j < length data" by simp
        then have "take (unat (j + 1)) (data[unat j := ?b]) = take (unat j) data @ [?b]"
          by (simp add: j1 take_update_here)
        moreover from lt have "unat sz - unat j = Suc (unat sz - unat (j + 1))"
          by (simp add: j1)
        ultimately show "take (unat j') data' = take (unat j) data @ take (unat sz - unat j) msg"
          using d' le jlt by (simp add: msg bcpy_out)
      qed
      moreover have "unat j' = unat j + min (length msg) (unat sz - unat j)"
        using j' jlt lt by (simp add: msg bcpy_out j1)
      ultimately show ?thesis
        using r ok' bl' l' ld f by (simp add: unf msg bl bcpy_fields ld1)
    next
      case jge: False
      then have z: "unat sz - unat j = 0" by (simp add: word_less_nat_alt)
      have "unat sz \<le> length data \<longrightarrow> take (unat j') data' =
          take (unat j) data @ take (unat sz - unat j) msg"
        using d' jge z by (simp add: bcpy_out)
      moreover have "unat j' = unat j + min (length msg) (unat sz - unat j)"
        using j' jge z by (simp add: bcpy_out)
      ultimately show ?thesis
        using r ok' bl' l' ld f by (simp add: unf msg bl bcpy_fields ld1)
    qed
  qed
qed


lemma mod_shift_neq:
  fixes s :: nat
  assumes "k < l" and "l < C"
  shows "(s + k) mod C \<noteq> (s + l) mod C"
proof
  assume "(s + k) mod C = (s + l) mod C"
  then have "(s + l) mod C = (s + k) mod C" by simp
  moreover have "s + k \<le> s + l" using assms by simp
  ultimately have "C dvd (s + l) - (s + k)"
    by (simp only: mod_eq_dvd_iff_nat)
  then have "C dvd l - k" by simp
  moreover have "0 < l - k" and "l - k < C" using assms by simp_all
  ultimately show False by (simp add: nat_dvd_not_less)
qed

lemma push_latch:
  fixes s i l C :: nat
  assumes "s < C" and "l < C" and "i = (s + l) mod C"
  shows "(if s \<noteq> 0 then int i = int s - 1 else i = C - 1) \<longleftrightarrow> Suc l = C"
proof (cases "s + l < C")
  case True
  with assms show ?thesis by auto
next
  case False
  with assms have "i = s + l - C" by (simp add: mod_if)
  with assms False show ?thesis by auto
qed

lemma cbuffer_push_spec:
  assumes inv: "cbuffer_inv cb" and no: "\<not> overflow cb"
  shows "snd (cbuffer_push cb rxc) \<and> cbuffer_inv (fst (cbuffer_push cb rxc)) \<and>
    backlog (fst (cbuffer_push cb rxc)) = backlog cb @ [rxc] \<and>
    TOP (fst (cbuffer_push cb rxc)) = TOP cb \<and>
    size_cb (fst (cbuffer_push cb rxc)) = size_cb cb"
proof -
  let ?C = "capacity cb"
  let ?cb' = "fst (cbuffer_push cb rxc)"
  from inv have ok: "cursors_ok cb" by (simp add: cbuffer_inv_def)
  have s: "unat (start cb) < ?C" and i: "unat (idx cb) < ?C"
    and ii: "unat (idx cb) = (unat (start cb) + unat (len cb)) mod ?C"
    and lb: "length (buffer cb) = ?C"
    using ok by (simp_all add: cursors_ok_def word_le_nat_alt capacity_def)
  have l: "unat (len cb) < ?C"
    using inv no by (simp add: cbuffer_inv_def cursors_ok_def)
  have T: "unat (TOP cb) < 255" by (rule cursors_ok_TOP [OF ok])
  then have l1: "unat (len cb + 1) = unat (len cb) + 1"
    using l by (simp add: unat_inc capacity_def)
  have f: "buffer ?cb' = (buffer cb)[unat (idx cb) := rxc]" "TOP ?cb' = TOP cb"
    "size_cb ?cb' = size_cb cb" "start ?cb' = start cb" "len ?cb' = len cb + 1"
    "capacity ?cb' = capacity cb"
    using no by (simp_all add: cbuffer_push_def Let_def capacity_def)
  have i': "unat (idx ?cb') = (unat (idx cb) + 1) mod ?C"
  proof (cases "idx cb = TOP cb")
    case True
    with no show ?thesis by (simp add: cbuffer_push_def Let_def capacity_def)
  next
    case False
    with i have "unat (idx cb) < unat (TOP cb)"
      by (simp add: capacity_def word_unat_eq_iff)
    with T no False show ?thesis
      by (simp add: cbuffer_push_def Let_def capacity_def unat_inc)
  qed
  have C: "0 < ?C" by (simp add: capacity_def)
  have o': "overflow ?cb' \<longleftrightarrow>
      (if unat (start cb) \<noteq> 0 then int (unat (idx cb)) = int (unat (start cb)) - 1
       else unat (idx cb) = ?C - 1)"
  proof (cases "start cb = 0")
    case True
    with no show ?thesis
      by (simp add: cbuffer_push_def Let_def capacity_def word_unat_eq_iff [of "idx cb"])
  next
    case False
    then have "unat (start cb) \<noteq> 0" by (simp add: unat_eq_0)
    with no False show ?thesis
      by (simp add: cbuffer_push_def Let_def)
  qed
  have o: "overflow ?cb' \<longleftrightarrow> Suc (unat (len cb)) = ?C"
    unfolding o' by (rule push_latch [OF s l ii])
  have "(unat (idx cb) + 1) mod ?C = (unat (start cb) + (unat (len cb) + 1)) mod ?C"
    unfolding ii by (simp add: mod_Suc_eq)
  with i' have ii': "unat (idx ?cb') = (unat (start cb) + unat (len ?cb')) mod ?C"
    by (simp add: f l1)
  have "(unat (idx cb) + 1) mod ?C < ?C" using C by simp
  then have ile: "idx ?cb' \<le> TOP cb"
    by (simp add: word_le_nat_alt i' capacity_def)
  have ok': "cursors_ok ?cb'"
    using ok ile ii' l by (simp add: cursors_ok_def f l1)
  have inv': "cbuffer_inv ?cb'"
    using ok' o by (simp add: cbuffer_inv_def f l1)
  have "map (\<lambda>k. (buffer cb)[unat (idx cb) := rxc] ! ((unat (start cb) + k) mod ?C))
      [0..<unat (len cb)] = backlog cb"
    unfolding backlog_def
  proof (rule map_cong [OF refl])
    fix k assume "k \<in> set [0..<unat (len cb)]"
    then have "k < unat (len cb)" by simp
    from mod_shift_neq [OF this l, of "unat (start cb)"]
    show "(buffer cb)[unat (idx cb) := rxc] ! ((unat (start cb) + k) mod ?C)
        = buffer cb ! ((unat (start cb) + k) mod ?C)"
      by (simp add: ii)
  qed
  moreover have "(buffer cb)[unat (idx cb) := rxc] ! ((unat (start cb) + unat (len cb)) mod ?C) = rxc"
    using i lb by (simp add: ii [symmetric])
  ultimately have "backlog ?cb' = backlog cb @ [rxc]"
    by (simp add: backlog_def [of ?cb'] f l1)
  moreover have "snd (cbuffer_push cb rxc)"
    using no by (simp add: cbuffer_push_def Let_def)
  ultimately show ?thesis using inv' f by simp
qed

lemma cbuffer_push_full: "overflow cb \<Longrightarrow> cbuffer_push cb rxc = (cb, False)"
  by (simp add: cbuffer_push_def)

lemma backlog_length: "length (backlog cb) = unat (len cb)"
  by (simp add: backlog_def)


lemma cursors_ok_overflow [simp]: "cursors_ok (cb\<lparr>overflow := x\<rparr>) = cursors_ok cb"
  by (simp add: cursors_ok_def capacity_def)

lemma backlog_overflow [simp]: "backlog (cb\<lparr>overflow := x\<rparr>) = backlog cb"
  by (simp add: backlog_def capacity_def)

lemma capacity_overflow [simp]: "capacity (cb\<lparr>overflow := x\<rparr>) = capacity cb"
  by (simp add: capacity_def)

lemma cbuffer_init_inv:
  assumes "0 < C" and "C \<le> 255" and "length mem = C"
  shows "cbuffer_inv (cbuffer_init C mem)" and "capacity (cbuffer_init C mem) = C"
    and "backlog (cbuffer_init C mem) = []" and "\<not> overflow (cbuffer_init C mem)"
proof -
  have "unat (of_nat C :: uint8_t) = C mod 2 ^ LENGTH(8)"
    by (rule unat_of_nat)
  with assms have c: "unat (of_nat C :: uint8_t) = C"
    by simp
  with assms have "(of_nat C :: uint8_t) \<noteq> 0"
    by (simp only: unat_gt_0 [symmetric])
  then have "unat (of_nat C - 1 :: uint8_t) = unat (of_nat C :: uint8_t) - 1"
    by (rule unat_minus_one)
  with c assms have "unat (of_nat C - 1 :: uint8_t) = C - 1" and "unat (of_nat C :: uint8_t) = C"
    by simp_all
  with assms show "cbuffer_inv (cbuffer_init C mem)" and "capacity (cbuffer_init C mem) = C"
    and "backlog (cbuffer_init C mem) = []" and "\<not> overflow (cbuffer_init C mem)"
    by (simp_all add: cbuffer_inv_def cursors_ok_def capacity_def backlog_def cbuffer_init_def
        cbuffer_clear_def)
qed

lemma cbuffer_clear_inv:
  assumes "cbuffer_inv cb"
  shows "cbuffer_inv (cbuffer_clear cb)" and "capacity (cbuffer_clear cb) = capacity cb"
    and "backlog (cbuffer_clear cb) = []"
  using assms
  by (simp_all add: cbuffer_inv_def cursors_ok_def capacity_def backlog_def cbuffer_clear_def)

lemma cbuffer_pop_spec:
  assumes inv: "cbuffer_inv cb"
  shows "\<exists>cb' data' j. cbuffer_pop cb data sz = (cb', data', j) \<and>
    cbuffer_inv cb' \<and> capacity cb' = capacity cb \<and> length data' = length data \<and>
    (0 < unat sz \<longrightarrow>
       backlog cb' = drop (unat sz) (backlog cb) \<and>
       unat j = min (unat (len cb)) (unat sz) \<and>
       (unat sz \<le> length data \<longrightarrow> take (unat j) data' = take (unat sz) (backlog cb)))"
proof -
  let ?C = "capacity cb"
  from inv have ok: "cursors_ok cb" and o: "overflow cb \<longleftrightarrow> unat (len cb) = ?C"
    and le: "unat (len cb) \<le> ?C"
    by (simp_all add: cbuffer_inv_def cursors_ok_def)
  consider (empty) "len cb = 0" | (part) "len cb \<noteq> 0" "\<not> overflow cb"
    | (full) "len cb \<noteq> 0" "overflow cb"
    by blast
  then show ?thesis
  proof cases
    case empty
    then have "backlog cb = []" by (simp add: backlog_def)
    with empty inv show ?thesis by (simp add: cbuffer_pop_def)
  next
    case part
    with o le have lt: "unat (len cb) < ?C" by simp
    from pop_loop_spec [OF ok lt refl, of data sz 0]
    obtain cb' data' j' where r: "pop_loop cb data sz (idx cb) 0 = (cb', data', j')"
      and ok': "cursors_ok cb'"
      and bl': "backlog cb' = drop (min (unat (len cb)) (unat sz)) (backlog cb)"
      and j': "unat j' = min (unat (len cb)) (unat sz)"
      and l': "unat (len cb') = unat (len cb) - min (unat (len cb)) (unat sz)"
      and ld: "length data' = length data"
      and d': "unat sz \<le> length data \<longrightarrow>
          take (unat j') data' = take (min (unat (len cb)) (unat sz)) (backlog cb)"
      and f: "TOP cb' = TOP cb"
      by auto
    have e: "cbuffer_pop cb data sz = (cb'\<lparr>overflow := False\<rparr>, data', j')"
      using part r by (simp add: cbuffer_pop_def)
    have "unat (len cb') < ?C" using l' lt by simp
    with ok' f have "cbuffer_inv (cb'\<lparr>overflow := False\<rparr>)"
      by (simp add: cbuffer_inv_def capacity_def)
    moreover have "drop (min (unat (len cb)) (unat sz)) (backlog cb) = drop (unat sz) (backlog cb)"
      and "take (min (unat (len cb)) (unat sz)) (backlog cb) = take (unat sz) (backlog cb)"
      by (simp_all add: min_def backlog_length)
    ultimately show ?thesis
      using bl' j' ld d' f by (simp add: e capacity_def)
  next
    case full
    let ?b = "buffer cb ! unat (start cb)"
    let ?cb1 = "fst (bcpy cb data sz 0)"
    let ?d1 = "fst (snd (bcpy cb data sz 0))"
    let ?j1 = "snd (snd (bcpy cb data sz 0))"
    have ok1: "cursors_ok ?cb1" by (rule bcpy_cursors_ok [OF ok full(1)])
    have l1: "unat (len ?cb1) = ?C - 1" using full o by (simp add: bcpy_fields unat_dec)
    have c1: "unat (len ?cb1) < capacity ?cb1"
      unfolding l1 bcpy_fields(7) by (simp add: capacity_def)
    have bl: "backlog cb = ?b # backlog ?cb1" by (rule bcpy_backlog [OF ok full(1)])
    from pop_loop_spec [OF ok1 c1 refl, of ?d1 sz ?j1]
    obtain cb' data' j' where r: "pop_loop ?cb1 ?d1 sz (idx ?cb1) ?j1 = (cb', data', j')"
      and ok': "cursors_ok cb'"
      and bl': "backlog cb' = drop (min (unat (len ?cb1)) (unat sz - unat ?j1)) (backlog ?cb1)"
      and j': "unat j' = unat ?j1 + min (unat (len ?cb1)) (unat sz - unat ?j1)"
      and l': "unat (len cb') = unat (len ?cb1) - min (unat (len ?cb1)) (unat sz - unat ?j1)"
      and ld: "length data' = length ?d1"
      and d': "unat sz \<le> length ?d1 \<longrightarrow> take (unat j') data' =
          take (unat ?j1) ?d1 @ take (min (unat (len ?cb1)) (unat sz - unat ?j1)) (backlog ?cb1)"
      and f: "TOP cb' = TOP ?cb1"
      by auto
    have e: "cbuffer_pop cb data sz = (cb'\<lparr>overflow := False\<rparr>, data', j')"
      using full r by (simp add: cbuffer_pop_def case_prod_beta bcpy_fields)
    have "unat (len cb') < ?C" using l' l1 by (simp add: capacity_def)
    with ok' f have i': "cbuffer_inv (cb'\<lparr>overflow := False\<rparr>)"
      by (simp add: cbuffer_inv_def capacity_def bcpy_fields)
    have ld1: "length ?d1 = length data" by (simp add: bcpy_out)
    have "0 < unat sz \<longrightarrow>
       backlog cb' = drop (unat sz) (backlog cb) \<and>
       unat j' = min (unat (len cb)) (unat sz) \<and>
       (unat sz \<le> length data \<longrightarrow> take (unat j') data' = take (unat sz) (backlog cb))"
    proof
      assume pos: "0 < unat sz"
      then have z: "0 < sz" by (simp add: word_less_nat_alt)
      then have j1: "unat ?j1 = 1" and d1: "?d1 = data[0 := ?b]"
        by (simp_all add: bcpy_out)
      from pos obtain m where m: "unat sz = Suc m" by (cases "unat sz") auto
      have lC: "unat (len cb) = Suc (?C - 1)" using full o by (simp add: capacity_def)
      have lb: "length (backlog ?cb1) = ?C - 1" by (simp add: backlog_length l1)
      have a: "backlog cb' = drop (unat sz) (backlog cb)"
        using bl' by (simp add: bl j1 l1 m min_def lb)
      have b: "unat j' = min (unat (len cb)) (unat sz)"
        using j' by (simp add: j1 l1 m lC)
      have c: "unat sz \<le> length data \<longrightarrow> take (unat j') data' = take (unat sz) (backlog cb)"
      proof
        assume "unat sz \<le> length data"
        with m d' ld1 have "take (unat j') data' =
            take 1 (data[0 := ?b]) @ take (min (?C - 1) m) (backlog ?cb1)"
          and "0 < length data"
          by (simp add: j1 d1 l1, auto)
        then have "take (unat j') data' = ?b # take (min (?C - 1) m) (backlog ?cb1)"
          by (cases data) simp_all
        then show "take (unat j') data' = take (unat sz) (backlog cb)"
          by (simp add: bl m min_def lb)
      qed
      from a b c show "backlog cb' = drop (unat sz) (backlog cb) \<and>
          unat j' = min (unat (len cb)) (unat sz) \<and>
          (unat sz \<le> length data \<longrightarrow> take (unat j') data' = take (unat sz) (backlog cb))"
        by simp
    qed
    with i' ld f show ?thesis
      by (auto simp: e capacity_def bcpy_fields ld1)
  qed
qed

lemma cbuffer_popm_spec:
  assumes inv: "cbuffer_inv cb"
  shows "\<exists>cb' data' j. cbuffer_popm cb data sz eom = Some (cb', data', j) \<and>
    cbuffer_inv cb' \<and> capacity cb' = capacity cb \<and> length data' = length data \<and>
    backlog cb' = drop (length (upto_eom eom (backlog cb))) (backlog cb) \<and>
    unat j = min (length (upto_eom eom (backlog cb))) (unat sz) \<and>
    (unat sz \<le> length data \<longrightarrow>
       take (unat j) data' = take (unat sz) (upto_eom eom (backlog cb)))"
proof -
  let ?C = "capacity cb"
  from inv have ok: "cursors_ok cb" and o: "overflow cb \<longleftrightarrow> unat (len cb) = ?C"
    and le: "unat (len cb) \<le> ?C"
    by (simp_all add: cbuffer_inv_def cursors_ok_def)
  consider (empty) "len cb = 0" | (part) "len cb \<noteq> 0" "\<not> overflow cb"
    | (full) "len cb \<noteq> 0" "overflow cb"
    by blast
  then show ?thesis
  proof cases
    case empty
    then have "backlog cb = []" by (simp add: backlog_def)
    with empty inv show ?thesis by (simp add: cbuffer_popm_def)
  next
    case part
    with o le have lt: "unat (len cb) < ?C" by simp
    let ?msg = "upto_eom eom (backlog cb)"
    from popm_loop_spec [OF ok lt refl, of ?msg True eom data sz 0]
    obtain cb' data' j' where r: "popm_loop cb data sz eom (idx cb) 0 True = Some (cb', data', j')"
      and ok': "cursors_ok cb'"
      and bl': "backlog cb' = drop (length ?msg) (backlog cb)"
      and j': "unat j' = min (length ?msg) (unat sz)"
      and l': "unat (len cb') < capacity cb'"
      and ld: "length data' = length data"
      and d': "unat sz \<le> length data \<longrightarrow> take (unat j') data' = take (unat sz) ?msg"
      and f: "TOP cb' = TOP cb"
      by auto
    have e: "cbuffer_popm cb data sz eom = Some (cb'\<lparr>overflow := False\<rparr>, data', j')"
      using part r by (simp add: cbuffer_popm_def)
    from ok' l' have "cbuffer_inv (cb'\<lparr>overflow := False\<rparr>)"
      by (simp add: cbuffer_inv_def)
    then show ?thesis
      using bl' j' ld d' f by (simp add: e capacity_def)
  next
    case full
    let ?b = "buffer cb ! unat (start cb)"
    let ?cb1 = "fst (bcpy cb data sz 0)"
    let ?d1 = "fst (snd (bcpy cb data sz 0))"
    let ?j1 = "snd (snd (bcpy cb data sz 0))"
    let ?loop1 = "if ?b = eom then False else True"
    let ?msg1 = "if ?loop1 then upto_eom eom (backlog ?cb1) else []"
    have ok1: "cursors_ok ?cb1" by (rule bcpy_cursors_ok [OF ok full(1)])
    have l1: "unat (len ?cb1) = ?C - 1" using full o by (simp add: bcpy_fields unat_dec)
    have c1: "unat (len ?cb1) < capacity ?cb1"
      unfolding l1 bcpy_fields(7) by (simp add: capacity_def)
    have bl: "backlog cb = ?b # backlog ?cb1" by (rule bcpy_backlog [OF ok full(1)])
    have msg: "upto_eom eom (backlog cb) = ?b # ?msg1" by (simp add: bl)
    from popm_loop_spec [OF ok1 c1 refl, of ?msg1 ?loop1 eom ?d1 sz ?j1]
    obtain cb' data' j' where r: "popm_loop ?cb1 ?d1 sz eom (idx ?cb1) ?j1 ?loop1 = Some (cb', data', j')"
      and ok': "cursors_ok cb'"
      and bl': "backlog cb' = drop (length ?msg1) (backlog ?cb1)"
      and j': "unat j' = unat ?j1 + min (length ?msg1) (unat sz - unat ?j1)"
      and l': "unat (len cb') < capacity cb'"
      and ld: "length data' = length ?d1"
      and d': "unat sz \<le> length ?d1 \<longrightarrow> take (unat j') data' =
          take (unat ?j1) ?d1 @ take (unat sz - unat ?j1) ?msg1"
      and f: "TOP cb' = TOP ?cb1"
      by auto
    have e: "cbuffer_popm cb data sz eom = Some (cb'\<lparr>overflow := False\<rparr>, data', j')"
      using full r by (simp add: cbuffer_popm_def case_prod_beta bcpy_fields)
    from ok' l' have i': "cbuffer_inv (cb'\<lparr>overflow := False\<rparr>)"
      by (simp add: cbuffer_inv_def)
    have ld1: "length ?d1 = length data" by (simp add: bcpy_out)
    have a: "backlog cb' = drop (length (upto_eom eom (backlog cb))) (backlog cb)"
      unfolding msg using bl' by (simp add: bl)
    have bc: "unat j' = min (length (upto_eom eom (backlog cb))) (unat sz) \<and>
      (unat sz \<le> length data \<longrightarrow> take (unat j') data' = take (unat sz) (upto_eom eom (backlog cb)))"
    proof (cases "0 < sz")
      case False
      then have z: "unat sz = 0" by (simp add: word_less_nat_alt)
      from False have "?j1 = 0" by (simp add: bcpy_out)
      with j' d' z show ?thesis by simp
    next
      case True
      then have j1: "unat ?j1 = 1" and d1: "?d1 = data[0 := ?b]"
        by (simp_all add: bcpy_out)
      from True obtain m where m: "unat sz = Suc m"
        by (cases "unat sz") (auto simp: word_less_nat_alt)
      have b: "unat j' = min (length (upto_eom eom (backlog cb))) (unat sz)"
        unfolding msg using j' by (simp add: j1 m)
      have c: "unat sz \<le> length data \<longrightarrow>
          take (unat j') data' = take (unat sz) (upto_eom eom (backlog cb))"
      proof
        assume "unat sz \<le> length data"
        with m d' ld1 have "take (unat j') data' = take 1 (data[0 := ?b]) @ take m ?msg1"
          and "0 < length data"
          by (simp add: j1 d1, auto)
        then have "take (unat j') data' = ?b # take m ?msg1"
          by (cases data) simp_all
        then show "take (unat j') data' = take (unat sz) (upto_eom eom (backlog cb))"
          unfolding msg by (simp add: m)
      qed
      from b c show ?thesis by simp
    qed
    from i' ld f a bc show ?thesis
      by (auto simp: e capacity_def bcpy_fields ld1)
  qed
qed


lemma push_all_spec:
  assumes "cbuffer_inv cb" and "length (backlog cb) + length xs \<le> capacity cb"
  shows "cbuffer_inv (fst (push_all cb xs)) \<and> backlog (fst (push_all cb xs)) = backlog cb @ xs \<and>
    snd (push_all cb xs) = replicate (length xs) True \<and>
    capacity (fst (push_all cb xs)) = capacity cb"
  using assms
proof (induction xs arbitrary: cb)
  case Nil
  then show ?case by simp
next
  case (Cons x xs)
  from Cons.prems have no: "\<not> overflow cb"
    by (simp add: cbuffer_inv_def backlog_length)
  let ?cb1 = "fst (cbuffer_push cb x)"
  from cbuffer_push_spec [OF Cons.prems(1) no, of x]
  have p: "snd (cbuffer_push cb x)" "cbuffer_inv ?cb1" "backlog ?cb1 = backlog cb @ [x]"
    "capacity ?cb1 = capacity cb"
    by (simp_all add: capacity_def)
  with Cons.prems have "length (backlog ?cb1) + length xs \<le> capacity ?cb1" by simp
  from Cons.IH [OF p(2) this] p show ?case
    by (simp add: case_prod_beta)
qed

lemma push_all_append:
  "push_all cb (xs @ ys) =
     (case push_all cb xs of (cb1, o1) \<Rightarrow> (case push_all cb1 ys of (cb2, o2) \<Rightarrow> (cb2, o1 @ o2)))"
  by (induction xs arbitrary: cb) (simp_all add: case_prod_beta)

lemma cbuffer_push_inv:
  assumes "cbuffer_inv cb"
  shows "cbuffer_inv (fst (cbuffer_push cb rxc)) \<and> capacity (fst (cbuffer_push cb rxc)) = capacity cb"
proof (cases "overflow cb")
  case True
  with assms show ?thesis by (simp add: cbuffer_push_full)
next
  case False
  from cbuffer_push_spec [OF assms False, of rxc] show ?thesis
    by (simp add: capacity_def)
qed

lemma apply_op_inv:
  assumes "cbuffer_inv cb"
  shows "\<exists>cb'. apply_op cb c = Some cb' \<and> cbuffer_inv cb' \<and> capacity cb' = capacity cb"
proof (cases c)
  case (Push rxc)
  with cbuffer_push_inv [OF assms, of rxc] show ?thesis by simp
next
  case (Pop data sz)
  with cbuffer_pop_spec [OF assms, of data sz] show ?thesis by auto
next
  case (Pop_until data sz eom)
  with cbuffer_popm_spec [OF assms, of data sz eom] show ?thesis by auto
next
  case Clear
  with cbuffer_clear_inv [OF assms] show ?thesis by simp
qed

lemma run_ops_inv:
  assumes "cbuffer_inv cb"
  shows "\<exists>cb'. run_ops cb cs = Some cb' \<and> cbuffer_inv cb' \<and> capacity cb' = capacity cb"
  using assms
proof (induction cs arbitrary: cb)
  case Nil
  then show ?case by simp
next
  case (Cons c cs)
  from apply_op_inv [OF Cons.prems, of c]
  obtain cb1 where a: "apply_op cb c = Some cb1" "cbuffer_inv cb1" "capacity cb1 = capacity cb"
    by blast
  from Cons.IH [OF a(2)] a show ?case by simp
qed

lemma cbuffer_inv_cursors:
  assumes inv: "cbuffer_inv cb"
  shows "(\<not> overflow cb \<longrightarrow>
      int (unat (len cb)) = (int (unat (idx cb)) - int (unat (start cb))) mod int (capacity cb)) \<and>
    (overflow cb \<longrightarrow> idx cb = start cb \<and> unat (len cb) = capacity cb)"
proof -
  let ?C = "capacity cb"
  from inv have s: "unat (start cb) < ?C"
    and i: "unat (idx cb) = (unat (start cb) + unat (len cb)) mod ?C"
    and o: "overflow cb \<longleftrightarrow> unat (len cb) = ?C" and le: "unat (len cb) \<le> ?C"
    by (simp_all add: cbuffer_inv_def cursors_ok_def word_le_nat_alt capacity_def)
  have "int (unat (idx cb)) = (int (unat (start cb)) + int (unat (len cb))) mod int ?C"
    unfolding i by (simp add: zmod_int)
  then have "(int (unat (idx cb)) - int (unat (start cb))) mod int ?C
      = (int (unat (start cb)) + int (unat (len cb)) - int (unat (start cb))) mod int ?C"
    by (simp only: mod_diff_left_eq)
  then have d: "(int (unat (idx cb)) - int (unat (start cb))) mod int ?C = int (unat (len cb)) mod int ?C"
    by simp
  show ?thesis
  proof (cases "overflow cb")
    case True
    with o i s have "unat (idx cb) = unat (start cb)" by simp
    with True o show ?thesis by (simp add: word_unat_eq_iff)
  next
    case False
    with o le have "unat (len cb) < ?C" by simp
    then have "int (unat (len cb)) mod int ?C = int (unat (len cb))"
      by (simp only: zmod_int [symmetric] mod_less)
    with d False show ?thesis by simp
  qed
qed

lemma upto_eom_first:
  assumes "k < length bl" and "bl ! k = eom" and "eom \<notin> set (take k bl)"
  shows "upto_eom eom bl = take (Suc k) bl"
  using assms
proof (induction bl arbitrary: k)
  case Nil
  then show ?case by simp
next
  case (Cons b bl)
  show ?case
  proof (cases k)
    case 0
    with Cons.prems show ?thesis by simp
  next
    case (Suc k')
    with Cons.prems have "b \<noteq> eom" and "k' < length bl" and "bl ! k' = eom"
      and "eom \<notin> set (take k' bl)"
      by auto
    with Cons.IH [of k'] Suc show ?thesis by simp
  qed
qed

lemma upto_eom_none: "eom \<notin> set bl \<Longrightarrow> upto_eom eom bl = bl"
  by (induction bl) auto

lemma upto_eom_length: "length (upto_eom eom bl) \<le> length bl"
  by (induction bl) auto

lemma upto_eom_prefix: "upto_eom eom bl = take (length (upto_eom eom bl)) bl"
  by (induction bl) auto

lemma reachable_inv:
  assumes "0 < C" and "C \<le> 255" and "length mem = C"
    and "run_ops (cbuffer_init C mem) cs = Some cb"
  shows "cbuffer_inv cb" and "capacity cb = C"
proof -
  from cbuffer_init_inv [OF assms(1-3)]
  have "cbuffer_inv (cbuffer_init C mem)" and "capacity (cbuffer_init C mem) = C"
    by simp_all
  with run_ops_inv [of "cbuffer_init C mem" cs] assms(4)
  show "cbuffer_inv cb" and "capacity cb = C"
    by auto
qed

subsection \<open>The checksum\<close>

lemma and_exp_eq_exp_iff_bit:
  fixes a :: "'a::len word"
  assumes "n < LENGTH('a)"
  shows "a AND 2 ^ n = 2 ^ n \<longleftrightarrow> bit a n"
proof -
  have "a AND 2 ^ n = (if bit a n then 2 ^ n else 0)"
    by (rule bit_word_eqI) (auto simp: bit_simps)
  moreover have "(2 :: 'a word) ^ n \<noteq> 0"
    using assms by simp
  ultimately show ?thesis by auto
qed

lemma mask_test:
  assumes "n < 8"
  shows "(ucast (b :: uint8_t) :: uint16_t) AND 2 ^ n = 2 ^ n \<longleftrightarrow> bit b n"
proof -
  from assms have "n < LENGTH(16)" by simp
  then have "(ucast b :: uint16_t) AND 2 ^ n = 2 ^ n \<longleftrightarrow> bit (ucast b :: uint16_t) n"
    by (rule and_exp_eq_exp_iff_bit)
  also have "\<dots> \<longleftrightarrow> bit b n"
    using assms by (simp add: bit_ucast_iff)
  finally show ?thesis .
qed

lemmas mask_tests = mask_test [of 7, simplified] mask_test [of 6, simplified]
  mask_test [of 5, simplified] mask_test [of 4, simplified] mask_test [of 3, simplified]
  mask_test [of 2, simplified] mask_test [of 1, simplified] mask_test [of 0, simplified]

lemma xorFlag_bit: "(crcReg :: uint16_t) AND 0x8000 \<noteq> 0 \<longleftrightarrow> bit crcReg 15"
  using bit_iff_and_push_bit_not_eq_0 [of crcReg 15] by simp

lemma CRC_calcCrc8_loop_step:
  "i < 8 \<Longrightarrow> CRC_calcCrc8_loop i crcReg m d =
     CRC_calcCrc8_loop (i + 1) (crc16_bit crcReg (d AND m = m)) (drop_bit 1 m) d"
  by (subst CRC_calcCrc8_loop.simps) (simp add: crc16_bit_def Let_def xorFlag_bit)

lemma CRC_calcCrc8_loop_done: "CRC_calcCrc8_loop 8 crcReg m d = crcReg"
  by (subst CRC_calcCrc8_loop.simps) simp

lemma CRC_calcCrc8_byte: "CRC_calcCrc8 crcReg (ucast b) = crc16_byte crcReg b"
  by (simp add: CRC_calcCrc8_def crc16_byte_def CRC_calcCrc8_loop_step CRC_calcCrc8_loop_done
      mask_tests)

lemma m5_crc_loop_fold:
  assumes "unat (len_rf rfid) \<le> length (data_rf rfid)"
  shows "m5_crc_loop rfid i crc16 =
    foldl crc16_byte crc16 (drop (unat i) (take (unat (len_rf rfid)) (data_rf rfid)))"
  using assms
proof (induction rfid i crc16 rule: m5_crc_loop.induct)
  case (1 rfid i crc16)
  let ?p = "take (unat (len_rf rfid)) (data_rf rfid)"
  show ?case
  proof (cases "i < len_rf rfid")
    case True
    then have lt: "unat i < unat (len_rf rfid)" by (simp add: word_less_nat_alt)
    have "unat (len_rf rfid) < 2 ^ 8"
      using unsigned_less [of "len_rf rfid"] by simp
    with lt have s: "unat (i + 1) = Suc (unat i)" by (simp add: unat_word_ariths)
    from lt "1.prems" have "unat i < length ?p" by simp
    then have "drop (unat i) ?p = ?p ! unat i # drop (Suc (unat i)) ?p"
      by (simp only: Cons_nth_drop_Suc)
    moreover have "?p ! unat i = data_rf rfid ! unat i" using lt by simp
    ultimately have d: "drop (unat i) ?p = data_rf rfid ! unat i # drop (Suc (unat i)) ?p"
      by simp
    have "m5_crc_loop rfid i crc16 =
        m5_crc_loop rfid (i + 1) (CRC_calcCrc8 crc16 (ucast (data_rf rfid ! unat i)))"
      using True by (subst m5_crc_loop.simps) simp
    also have "\<dots> = foldl crc16_byte (CRC_calcCrc8 crc16 (ucast (data_rf rfid ! unat i)))
        (drop (unat (i + 1)) ?p)"
      by (rule "1.IH" [OF True "1.prems"])
    finally show ?thesis
      by (simp add: d s CRC_calcCrc8_byte)
  next
    case False
    then have "unat (len_rf rfid) \<le> unat i" by (simp add: word_less_nat_alt)
    then have "drop (unat i) ?p = []" by simp
    moreover have "m5_crc_loop rfid i crc16 = crc16"
      using False by (subst m5_crc_loop.simps) simp
    ultimately show ?thesis by simp
  qed
qed

subsection \<open>Polling the serial line\<close>










section \<open>The claims of the specification\<close>

text \<open>
  Claim C1. Take any empty buffer: a state with \<open>len = 0\<close> that the operations of the ring
  reach from \<^verbatim>\<open>cbuffer_init\<close>, for a capacity \<open>C\<close> from 1 to 255, wherever its two cursors
  stand; and a caller area of at least \<open>max_len\<close> bytes with \<open>max_len \<ge> C\<close>. Pushing at most
  \<open>C\<close> bytes: every push returns true, and the pop that follows returns the number of bytes
  pushed and exactly those bytes, in order. Pushing \<open>C + 1\<close> bytes: the first \<open>C\<close> pushes
  return true, the last one false, the overflow latch is set, and the pop that follows
  returns \<open>C\<close> bytes, the first \<open>C\<close> pushed, in order.
\<close>

theorem push_drain_fidelity:
  assumes "0 < C" and "C \<le> 255" and "length mem = C"
    and "run_ops (cbuffer_init C mem) cs = Some cb0" and "len cb0 = 0"
    and "C \<le> unat max_len" and "unat max_len \<le> length data"
  shows "(length xs \<le> C \<longrightarrow>
      (case push_all cb0 xs of (cb, oks) \<Rightarrow>
         oks = replicate (length xs) True \<and>
         (case cbuffer_pop cb data max_len of (cb', data', j) \<Rightarrow>
            unat j = length xs \<and> take (unat j) data' = xs))) \<and>
    (length xs = C + 1 \<longrightarrow>
      (case push_all cb0 xs of (cb, oks) \<Rightarrow>
         oks = replicate C True @ [False] \<and> overflow cb \<and>
         (case cbuffer_pop cb data max_len of (cb', data', j) \<Rightarrow>
            unat j = C \<and> take (unat j) data' = take C xs)))"
proof -
  have i: "cbuffer_inv cb0" and c: "capacity cb0 = C"
    by (rule reachable_inv [OF assms(1-4)])+
  have b: "backlog cb0 = []"
    using assms(5) by (simp add: backlog_def)
  have fit: "\<And>ys. length ys \<le> C \<Longrightarrow>
    cbuffer_inv (fst (push_all cb0 ys)) \<and> backlog (fst (push_all cb0 ys)) = ys \<and>
    snd (push_all cb0 ys) = replicate (length ys) True \<and>
    capacity (fst (push_all cb0 ys)) = C"
    using push_all_spec [OF i] by (simp add: b c)
  have drain: "\<And>cb. cbuffer_inv cb \<Longrightarrow> capacity cb = C \<Longrightarrow>
    unat (snd (snd (cbuffer_pop cb data max_len))) = length (backlog cb) \<and>
    take (length (backlog cb)) (fst (snd (cbuffer_pop cb data max_len))) = backlog cb"
  proof -
    fix cb assume inv: "cbuffer_inv cb" and cap: "capacity cb = C"
    then have le: "unat (len cb) \<le> C" by (simp add: cbuffer_inv_def cursors_ok_def)
    from assms have pos: "0 < unat max_len" by simp
    from cbuffer_pop_spec [OF inv, of data max_len] pos assms(7)
    obtain cb' data' j where r: "cbuffer_pop cb data max_len = (cb', data', j)"
      and j: "unat j = min (unat (len cb)) (unat max_len)"
      and d: "take (unat j) data' = take (unat max_len) (backlog cb)"
      by auto
    from le assms(6) have "min (unat (len cb)) (unat max_len) = length (backlog cb)"
      and "take (unat max_len) (backlog cb) = backlog cb"
      by (simp_all add: backlog_length)
    with j d show "unat (snd (snd (cbuffer_pop cb data max_len))) = length (backlog cb) \<and>
        take (length (backlog cb)) (fst (snd (cbuffer_pop cb data max_len))) = backlog cb"
      by (simp add: r)
  qed
  have part1: "length xs \<le> C \<longrightarrow>
      (case push_all cb0 xs of (cb, oks) \<Rightarrow>
         oks = replicate (length xs) True \<and>
         (case cbuffer_pop cb data max_len of (cb', data', j) \<Rightarrow>
            unat j = length xs \<and> take (unat j) data' = xs))"
  proof
    assume "length xs \<le> C"
    from fit [OF this] drain [of "fst (push_all cb0 xs)"]
    show "case push_all cb0 xs of (cb, oks) \<Rightarrow>
         oks = replicate (length xs) True \<and>
         (case cbuffer_pop cb data max_len of (cb', data', j) \<Rightarrow>
            unat j = length xs \<and> take (unat j) data' = xs)"
      by (simp add: case_prod_beta)
  qed
  have part2: "length xs = C + 1 \<longrightarrow>
      (case push_all cb0 xs of (cb, oks) \<Rightarrow>
         oks = replicate C True @ [False] \<and> overflow cb \<and>
         (case cbuffer_pop cb data max_len of (cb', data', j) \<Rightarrow>
            unat j = C \<and> take (unat j) data' = take C xs))"
  proof
    assume l: "length xs = C + 1"
    define ys where "ys = take C xs"
    define z where "z = xs ! C"
    from l have xs: "xs = ys @ [z]" and ly: "length ys = C"
      by (simp_all add: ys_def z_def take_Suc_conv_app_nth [symmetric])
    let ?cb = "fst (push_all cb0 ys)"
    from fit [of ys] ly have f: "cbuffer_inv ?cb" "backlog ?cb = ys"
      "snd (push_all cb0 ys) = replicate C True" "capacity ?cb = C"
      by simp_all
    from f(1,2,4) ly have ov: "overflow ?cb"
      using backlog_length [of ?cb] by (simp add: cbuffer_inv_def)
    then have "cbuffer_push ?cb z = (?cb, False)" by (rule cbuffer_push_full)
    then have p: "push_all cb0 xs = (?cb, replicate C True @ [False])"
      by (simp add: xs push_all_append case_prod_beta f(3))
    from drain [OF f(1,4)] f(2) ly ov
    show "case push_all cb0 xs of (cb, oks) \<Rightarrow>
         oks = replicate C True @ [False] \<and> overflow cb \<and>
         (case cbuffer_pop cb data max_len of (cb', data', j) \<Rightarrow>
            unat j = C \<and> take (unat j) data' = take C xs)"
      unfolding p by (simp add: case_prod_beta ys_def)
  qed
  from part1 part2 show ?thesis by simp
qed

theorem push_drain_fidelity_witness:
  "(0::nat) < 4 \<and> (4::nat) \<le> 255 \<and> length [0, 0, 0, 0 :: uint8_t] = 4 \<and>
   run_ops (cbuffer_init 4 [0, 0, 0, 0]) [Push 8, Push 9, Pop [0, 0] 2] =
     Some \<lparr>buffer = [8, 9, 0, 0], idx = 2, start = 2, TOP = 3, size_cb = 4, len = 0,
       overflow = False\<rparr> \<and>
   len \<lparr>buffer = [8, 9, 0, 0], idx = 2, start = 2, TOP = 3, size_cb = 4, len = 0,
       overflow = False\<rparr> = 0 \<and>
   4 \<le> unat (5 :: uint8_t) \<and> unat (5 :: uint8_t) \<le> length [9, 9, 9, 9, 9 :: uint8_t] \<and>
   length [1, 2, 3 :: uint8_t] \<le> 4 \<and> length [1, 2, 3, 4, 5 :: uint8_t] = 4 + 1 \<and>
   (case push_all \<lparr>buffer = [8, 9, 0, 0], idx = 2, start = 2, TOP = 3, size_cb = 4, len = 0,
       overflow = False\<rparr> [1, 2, 3] of (cb, oks) \<Rightarrow>
      oks = replicate (length [1, 2, 3 :: uint8_t]) True \<and>
      (case cbuffer_pop cb [9, 9, 9, 9, 9] 5 of (cb', data', j) \<Rightarrow>
         unat j = length [1, 2, 3 :: uint8_t] \<and> take (unat j) data' = [1, 2, 3])) \<and>
   (case push_all \<lparr>buffer = [8, 9, 0, 0], idx = 2, start = 2, TOP = 3, size_cb = 4, len = 0,
       overflow = False\<rparr> [1, 2, 3, 4, 5] of (cb, oks) \<Rightarrow>
      oks = replicate 4 True @ [False] \<and> overflow cb \<and>
      (case cbuffer_pop cb [9, 9, 9, 9, 9] 5 of (cb', data', j) \<Rightarrow>
         unat j = 4 \<and> take (unat j) data' = take 4 [1, 2, 3, 4, 5])) \<and>
   push_all \<lparr>buffer = [8, 9, 0, 0], idx = 2, start = 2, TOP = 3, size_cb = 4, len = 0,
       overflow = False\<rparr> [1, 2, 3, 4, 5] =
     (\<lparr>buffer = [3, 4, 1, 2], idx = 2, start = 2, TOP = 3, size_cb = 4, len = 4,
        overflow = True\<rparr>, [True, True, True, True, False]) \<and>
   snd (cbuffer_pop \<lparr>buffer = [3, 4, 1, 2], idx = 2, start = 2, TOP = 3, size_cb = 4, len = 4,
        overflow = True\<rparr> [9, 9, 9, 9, 9] 5) = ([1, 2, 3, 4, 9], 4)"
proof -
  let ?cb0 = "\<lparr>buffer = [8, 9, 0, 0], idx = 2, start = 2, TOP = 3, size_cb = 4, len = 0,
       overflow = False\<rparr>"
  have h: "(0::nat) < 4" "(4::nat) \<le> 255" "length [0, 0, 0, 0 :: uint8_t] = 4"
    by simp_all
  have r: "run_ops (cbuffer_init 4 [0, 0, 0, 0]) [Push 8, Push 9, Pop [0, 0] 2] = Some ?cb0"
    by code_simp
  have e: "len ?cb0 = 0" by simp
  have m: "4 \<le> unat (5 :: uint8_t)" "unat (5 :: uint8_t) \<le> length [9, 9, 9, 9, 9 :: uint8_t]"
    by simp_all
  have l: "length [1, 2, 3 :: uint8_t] \<le> 4" "length [1, 2, 3, 4, 5 :: uint8_t] = 4 + 1"
    by simp_all
  note t = push_drain_fidelity [OF h r e m]
  have v: "push_all ?cb0 [1, 2, 3, 4, 5] =
     (\<lparr>buffer = [3, 4, 1, 2], idx = 2, start = 2, TOP = 3, size_cb = 4, len = 4,
        overflow = True\<rparr>, [True, True, True, True, False])"
    "snd (cbuffer_pop \<lparr>buffer = [3, 4, 1, 2], idx = 2, start = 2, TOP = 3, size_cb = 4, len = 4,
        overflow = True\<rparr> [9, 9, 9, 9, 9] 5) = ([1, 2, 3, 4, 9], 4)"
    by code_simp+
  have a: "case push_all ?cb0 [1, 2, 3] of (cb, oks) \<Rightarrow>
      oks = replicate (length [1, 2, 3 :: uint8_t]) True \<and>
      (case cbuffer_pop cb [9, 9, 9, 9, 9] 5 of (cb', data', j) \<Rightarrow>
         unat j = length [1, 2, 3 :: uint8_t] \<and> take (unat j) data' = [1, 2, 3])"
    by (rule t [of "[1, 2, 3]", THEN conjunct1, THEN mp, OF l(1)])
  have b: "case push_all ?cb0 [1, 2, 3, 4, 5] of (cb, oks) \<Rightarrow>
      oks = replicate 4 True @ [False] \<and> overflow cb \<and>
      (case cbuffer_pop cb [9, 9, 9, 9, 9] 5 of (cb', data', j) \<Rightarrow>
         unat j = 4 \<and> take (unat j) data' = take 4 [1, 2, 3, 4, 5])"
    by (rule t [of "[1, 2, 3, 4, 5]", THEN conjunct2, THEN mp, OF l(2)])
  from h r e m l a b v show ?thesis by (intro conjI)
qed

text \<open>
  Claim C2. \<^verbatim>\<open>m5_crc\<close> is the checksum \<open>crc_ccitt\<close> (16 bits, polynomial \<open>0x1021\<close>, initial
  register \<open>0xFFFF\<close>, eight shift/XOR steps for each byte, most significant bit first) of
  the length byte, the opcode byte, the high and then the low status byte when
  \<open>include_status\<close> is set and only then, and the \<open>len\<close> payload bytes in order. For length
  \<open>0x02\<close>, opcode \<open>0x21\<close>, payload \<open>03 E8\<close> and no status it is \<open>0xD509\<close>.
\<close>

theorem m5_crc_ccitt:
  assumes "unat (len_rf rfid) \<le> length (data_rf rfid)"
  shows "m5_crc rfid include_status =
      crc_ccitt ([len_rf rfid, opcode rfid] @
        (if include_status \<noteq> 0
         then [ucast (drop_bit 8 (status rfid)), ucast (status rfid)] else []) @
        take (unat (len_rf rfid)) (data_rf rfid)) \<and>
    m5_crc \<lparr>size_rf = sz, data_rf = 0x03 # 0xE8 # rest, soh = h, len_rf = 0x02, opcode = 0x21,
      status = st, crc = c, error = e\<rparr> FALSE = 0xD509"
proof -
  have "status rfid AND 0xff = take_bit 8 (status rfid)"
    by (simp add: take_bit_eq_mask mask_eq_exp_minus_1)
  moreover have "(ucast (take_bit 8 (status rfid)) :: uint8_t) = ucast (status rfid)"
    by (rule bit_word_eqI) (auto simp: bit_simps)
  ultimately have lo: "(ucast (status rfid AND 0xff) :: uint8_t) = ucast (status rfid)"
    by simp
  have g: "\<And>r inc. unat (len_rf r) \<le> length (data_rf r) \<Longrightarrow> m5_crc r inc =
      crc_ccitt ([len_rf r, opcode r] @
        (if inc \<noteq> 0 then [ucast (drop_bit 8 (status r)), ucast (status r AND 0xff)] else []) @
        take (unat (len_rf r)) (data_rf r))"
    by (simp add: m5_crc_def crc_ccitt_def Let_def CRC_calcCrc8_byte m5_crc_loop_fold)
  have "crc_ccitt [0x02, 0x21, 0x03, 0xE8] = 0xD509"
    by code_simp
  then have "m5_crc \<lparr>size_rf = sz, data_rf = 0x03 # 0xE8 # rest, soh = h, len_rf = 0x02,
      opcode = 0x21, status = st, crc = c, error = e\<rparr> FALSE = 0xD509"
    by (simp add: g FALSE_def)
  with g [OF assms, of include_status] show ?thesis
    by (simp add: lo)
qed

theorem m5_crc_ccitt_witness:
  "unat (len_rf \<lparr>size_rf = 16, data_rf = [0x02], soh = 0xff, len_rf = 0x01, opcode = 0x97,
      status = 0, crc = 0, error = 0\<rparr>)
     \<le> length (data_rf \<lparr>size_rf = 16, data_rf = [0x02], soh = 0xff, len_rf = 0x01, opcode = 0x97,
      status = 0, crc = 0, error = 0\<rparr>) \<and>
   m5_crc \<lparr>size_rf = 16, data_rf = [0x02], soh = 0xff, len_rf = 0x01, opcode = 0x97,
      status = 0, crc = 0, error = 0\<rparr> FALSE = crc_ccitt [0x01, 0x97, 0x02] \<and>
   crc_ccitt [0x01, 0x97, 0x02] = 0x4bbf \<and>
   m5_crc \<lparr>size_rf = 16, data_rf = [0x03, 0xE8], soh = 0xff, len_rf = 0x02, opcode = 0x21,
      status = 0, crc = 0, error = 0\<rparr> FALSE = 0xD509"
proof -
  let ?r = "\<lparr>size_rf = 16, data_rf = [0x02], soh = 0xff, len_rf = 0x01, opcode = 0x97,
      status = 0, crc = 0, error = 0\<rparr>"
  have h: "unat (len_rf ?r) \<le> length (data_rf ?r)" by simp
  have e: "crc_ccitt [0x01, 0x97, 0x02] = 0x4bbf" by code_simp
  from m5_crc_ccitt [OF h, of FALSE 16 "[]" "0xff" 0 0 0] h e show ?thesis
    by (simp add: FALSE_def)
qed

text \<open>
  Claim C3. \<^verbatim>\<open>send_cmd\<close> sets the header, computes the checksum without the status, sends
  the frame and runs \<^verbatim>\<open>rx_pkt\<close> with a budget of 500. It returns \<open>TRUE\<close> exactly when, in the
  session record after the exchange, the stage is \<open>END\<close>, the opcode is the one that was
  sent and the status word is zero; it returns \<open>FALSE\<close> exactly when one of the three
  fails.
\<close>

theorem send_cmd_success:
  "(snd (snd (send_cmd w rfid)) = TRUE \<longleftrightarrow>
      error (fst (snd (send_cmd w rfid))) = END \<and>
      opcode (fst (snd (send_cmd w rfid))) = opcode rfid \<and>
      status (fst (snd (send_cmd w rfid))) = 0) \<and>
   (snd (snd (send_cmd w rfid)) = FALSE \<longleftrightarrow>
      error (fst (snd (send_cmd w rfid))) \<noteq> END \<or>
      opcode (fst (snd (send_cmd w rfid))) \<noteq> opcode rfid \<or>
      status (fst (snd (send_cmd w rfid))) \<noteq> 0) \<and>
   (fst (send_cmd w rfid), fst (snd (send_cmd w rfid)), error (fst (snd (send_cmd w rfid)))) =
      rx_pkt (tx_pkt w (rfid\<lparr>soh := 0xff, crc := m5_crc (rfid\<lparr>soh := 0xff\<rparr>) FALSE\<rparr>))
        (rfid\<lparr>soh := 0xff, crc := m5_crc (rfid\<lparr>soh := 0xff\<rparr>) FALSE\<rparr>) 500"
  by (simp add: send_cmd_def Let_def case_prod_beta TRUE_def FALSE_def END_def rx_pkt_def)

theorem send_cmd_success_witness:
  "snd (snd (send_cmd (ex_board [[0xff, 0x00, 0x04, 0x00, 0x00, 0xc4, 0x44]]) ex_boot)) = TRUE \<and>
   UDR1_out (fst (send_cmd (ex_board [[0xff, 0x00, 0x04, 0x00, 0x00, 0xc4, 0x44]]) ex_boot))
     = [0xff, 0x00, 0x04, 0x1d, 0x0b] \<and>
   error (fst (snd (send_cmd (ex_board [[0xff, 0x00, 0x04, 0x00, 0x00, 0xc4, 0x44]]) ex_boot))) = END \<and>
   snd (snd (send_cmd (ex_board [[0xff, 0x00, 0x04, 0x01, 0x00, 0xc5, 0x44]]) ex_boot)) = FALSE \<and>
   status (fst (snd (send_cmd (ex_board [[0xff, 0x00, 0x04, 0x01, 0x00, 0xc5, 0x44]]) ex_boot))) = 0x0100 \<and>
   error (fst (snd (send_cmd (ex_board [[0xff, 0x00, 0x04, 0x01, 0x00, 0xc5, 0x44]]) ex_boot))) = END \<and>
   snd (snd (send_cmd (ex_board [[0xff, 0x00, 0x97, 0x00, 0x00, 0x77, 0x9e]]) ex_boot)) = FALSE \<and>
   opcode (fst (snd (send_cmd (ex_board [[0xff, 0x00, 0x97, 0x00, 0x00, 0x77, 0x9e]]) ex_boot))) = 0x97 \<and>
   error (fst (snd (send_cmd (ex_board [[0xff, 0x00, 0x97, 0x00, 0x00, 0x77, 0x9e]]) ex_boot))) = END \<and>
   snd (snd (send_cmd (ex_board []) ex_boot)) = FALSE \<and>
   error (fst (snd (send_cmd (ex_board []) ex_boot))) = SOH"
proof -
  have a: "error (fst (snd (send_cmd (ex_board [[0xff, 0x00, 0x04, 0x00, 0x00, 0xc4, 0x44]]) ex_boot))) = 0"
    "opcode (fst (snd (send_cmd (ex_board [[0xff, 0x00, 0x04, 0x00, 0x00, 0xc4, 0x44]]) ex_boot))) = 0x04"
    "status (fst (snd (send_cmd (ex_board [[0xff, 0x00, 0x04, 0x00, 0x00, 0xc4, 0x44]]) ex_boot))) = 0"
    "UDR1_out (fst (send_cmd (ex_board [[0xff, 0x00, 0x04, 0x00, 0x00, 0xc4, 0x44]]) ex_boot))
       = [0xff, 0x00, 0x04, 0x1d, 0x0b]"
    by code_simp+
  have b: "status (fst (snd (send_cmd (ex_board [[0xff, 0x00, 0x04, 0x01, 0x00, 0xc5, 0x44]]) ex_boot))) = 0x0100"
    "error (fst (snd (send_cmd (ex_board [[0xff, 0x00, 0x04, 0x01, 0x00, 0xc5, 0x44]]) ex_boot))) = 0"
    by code_simp+
  have c: "opcode (fst (snd (send_cmd (ex_board [[0xff, 0x00, 0x97, 0x00, 0x00, 0x77, 0x9e]]) ex_boot))) = 0x97"
    "error (fst (snd (send_cmd (ex_board [[0xff, 0x00, 0x97, 0x00, 0x00, 0x77, 0x9e]]) ex_boot))) = 0"
    by code_simp+
  have d: "error (fst (snd (send_cmd (ex_board []) ex_boot))) = 1"
    by code_simp
  have o: "opcode ex_boot = 0x04" by (simp add: ex_boot_def)
  note t = send_cmd_success [where rfid = ex_boot]
  from t [of "ex_board [[0xff, 0x00, 0x04, 0x00, 0x00, 0xc4, 0x44]]"]
  have 1: "snd (snd (send_cmd (ex_board [[0xff, 0x00, 0x04, 0x00, 0x00, 0xc4, 0x44]]) ex_boot)) = TRUE"
    by (simp add: a o END_def)
  from t [of "ex_board [[0xff, 0x00, 0x04, 0x01, 0x00, 0xc5, 0x44]]"]
  have 2: "snd (snd (send_cmd (ex_board [[0xff, 0x00, 0x04, 0x01, 0x00, 0xc5, 0x44]]) ex_boot)) = FALSE"
    by (simp add: b)
  from t [of "ex_board [[0xff, 0x00, 0x97, 0x00, 0x00, 0x77, 0x9e]]"]
  have 3: "snd (snd (send_cmd (ex_board [[0xff, 0x00, 0x97, 0x00, 0x00, 0x77, 0x9e]]) ex_boot)) = FALSE"
    by (simp add: c o)
  from t [of "ex_board []"]
  have 4: "snd (snd (send_cmd (ex_board []) ex_boot)) = FALSE"
    by (simp add: d END_def)
  from 1 2 3 4 a b c d show ?thesis
    by (simp add: END_def SOH_def)
qed

text \<open>
  Claim C4 against the code. The reader answers every command with a well-formed frame
  whose status word is \<open>0x0100\<close>. \<^verbatim>\<open>rfid_resume\<close> does not stop after the boot step: it
  sends all five commands, in the order boot, region, tag protocol, power mode, reader
  configuration, and returns 0. It looks at \<^verbatim>\<open>rfid->error\<close>, the stage of the receiver, which
  is \<open>END\<close> for every well-formed frame, and never at the status word or at what
  \<^verbatim>\<open>send_cmd\<close> returns.
\<close>

theorem rfid_resume_ignores_status:
  "snd (snd (rfid_resume False (replicate 255 0) (ex_board ex_error_replies) ex_boot)) = 0 \<and>
   status (fst (snd (rfid_resume False (replicate 255 0) (ex_board ex_error_replies) ex_boot)))
     = 0x0100 \<and>
   UDR1_out (fst (rfid_resume False (replicate 255 0) (ex_board ex_error_replies) ex_boot)) =
     [0xff, 0x00, 0x04, 0x1d, 0x0b,
      0xff, 0x01, 0x97, 0x02, 0x4b, 0xbf,
      0xff, 0x02, 0x93, 0x00, 0x05, 0x51, 0x7d,
      0xff, 0x01, 0x98, 0x03, 0x44, 0xbe,
      0xff, 0x03, 0x9a, 0x01, 0x02, 0x01, 0xad, 0x5c]"
  by code_simp

text \<open>
  Claim C5, as stated, fails. Three bytes 1, 2, 3 are buffered, none of them the terminator
  13, and \<^verbatim>\<open>cbuffer_popm\<close> is called with room for one byte. It copies the byte 1 and
  returns 1, but the loop went on to the frozen write cursor: \<open>len\<close> is 0 afterwards and
  the next pop returns no byte. The bytes 2 and 3 are lost, not kept.
\<close>

theorem popm_past_max_len_counterexample:
  "fst (push_all (cbuffer_init 4 [0, 0, 0, 0]) [1, 2, 3]) =
     \<lparr>buffer = [1, 2, 3, 0], idx = 3, start = 0, TOP = 3, size_cb = 4, len = 3, overflow = False\<rparr> \<and>
   cbuffer_popm \<lparr>buffer = [1, 2, 3, 0], idx = 3, start = 0, TOP = 3, size_cb = 4, len = 3,
       overflow = False\<rparr> [0] 1 13 =
     Some (\<lparr>buffer = [1, 2, 3, 0], idx = 3, start = 3, TOP = 3, size_cb = 4, len = 0,
       overflow = False\<rparr>, [1], 1) \<and>
   cbuffer_pop \<lparr>buffer = [1, 2, 3, 0], idx = 3, start = 3, TOP = 3, size_cb = 4, len = 0,
       overflow = False\<rparr> [0, 0, 0, 0] 4 =
     (\<lparr>buffer = [1, 2, 3, 0], idx = 3, start = 3, TOP = 3, size_cb = 4, len = 0,
       overflow = False\<rparr>, [0, 0, 0, 0], 0)"
  by code_simp

text \<open>
  Claim C5, amended. In every state that the operations of the ring reach from the empty
  buffer, \<^verbatim>\<open>cbuffer_popm\<close> returns, and it does not stop at \<open>max_len\<close>: with the message being
  the buffered bytes up to and including the first terminator (all of them when there is
  none), it copies the first \<open>max_len\<close> bytes of the message at most and removes the whole
  message from the buffer. The bytes of the message beyond \<open>max_len\<close> are dropped; a later
  pop gets the bytes that follow the message.
\<close>

theorem popm_drains_message:
  assumes "0 < C" and "C \<le> 255" and "length mem = C"
    and "run_ops (cbuffer_init C mem) cs = Some cb"
    and "unat max_len \<le> length data"
    and "0 < unat dsize2" and "unat dsize2 \<le> length data2"
  shows "\<exists>cb' data' j. cbuffer_popm cb data max_len eom = Some (cb', data', j) \<and>
    unat j = min (length (upto_eom eom (backlog cb))) (unat max_len) \<and>
    take (unat j) data' = take (unat max_len) (upto_eom eom (backlog cb)) \<and>
    backlog cb' = drop (length (upto_eom eom (backlog cb))) (backlog cb) \<and>
    (\<exists>cb2 data2' j2. cbuffer_pop cb' data2 dsize2 = (cb2, data2', j2) \<and>
       take (unat j2) data2' =
         take (unat dsize2) (drop (length (upto_eom eom (backlog cb))) (backlog cb)))"
proof -
  have inv: "cbuffer_inv cb"
    by (rule reachable_inv [OF assms(1-4)])
  from cbuffer_popm_spec [OF inv, of data max_len eom] assms(5)
  obtain cb' data' j where r: "cbuffer_popm cb data max_len eom = Some (cb', data', j)"
    and inv': "cbuffer_inv cb'"
    and bl': "backlog cb' = drop (length (upto_eom eom (backlog cb))) (backlog cb)"
    and j: "unat j = min (length (upto_eom eom (backlog cb))) (unat max_len)"
    and d: "take (unat j) data' = take (unat max_len) (upto_eom eom (backlog cb))"
    by auto
  from cbuffer_pop_spec [OF inv', of data2 dsize2] assms(6,7)
  obtain cb2 data2' j2 where "cbuffer_pop cb' data2 dsize2 = (cb2, data2', j2)"
    and "take (unat j2) data2' = take (unat dsize2) (backlog cb')"
    by auto
  with r bl' j d show ?thesis by simp
qed

theorem popm_drains_message_witness:
  "(0 :: nat) < 4 \<and> (4 :: nat) \<le> 255 \<and> length [0, 0, 0, 0 :: uint8_t] = 4 \<and>
   run_ops (cbuffer_init 4 [0, 0, 0, 0]) [Push 1, Push 2, Push 3] =
     Some \<lparr>buffer = [1, 2, 3, 0], idx = 3, start = 0, TOP = 3, size_cb = 4, len = 3,
       overflow = False\<rparr> \<and>
   unat (1 :: uint8_t) \<le> length [0 :: uint8_t] \<and> 0 < unat (4 :: uint8_t) \<and>
   unat (4 :: uint8_t) \<le> length [0, 0, 0, 0 :: uint8_t] \<and>
   backlog \<lparr>buffer = [1, 2, 3, 0], idx = 3, start = 0, TOP = 3, size_cb = 4, len = 3,
       overflow = False\<rparr> = [1, 2, 3] \<and>
   upto_eom 13 [1, 2, 3] = [1, 2, 3] \<and>
   (\<exists>cb' data' j. cbuffer_popm \<lparr>buffer = [1, 2, 3, 0], idx = 3, start = 0, TOP = 3, size_cb = 4,
       len = 3, overflow = False\<rparr> [0] 1 13 = Some (cb', data', j) \<and>
     unat j = min (length (upto_eom 13 [1, 2, 3])) (unat (1 :: uint8_t)) \<and>
     take (unat j) data' = take (unat (1 :: uint8_t)) (upto_eom 13 [1, 2, 3]) \<and>
     backlog cb' = drop (length (upto_eom 13 [1, 2, 3])) [1, 2, 3] \<and>
     (\<exists>cb2 data2' j2. cbuffer_pop cb' [0, 0, 0, 0] 4 = (cb2, data2', j2) \<and>
        take (unat j2) data2' =
          take (unat (4 :: uint8_t)) (drop (length (upto_eom 13 [1, 2, 3])) [1, 2, 3])))"
proof -
  let ?cb = "\<lparr>buffer = [1, 2, 3, 0], idx = 3, start = 0, TOP = 3, size_cb = 4, len = 3,
       overflow = False\<rparr>"
  have c: "(0 :: nat) < 4" "(4 :: nat) \<le> 255" "length [0, 0, 0, 0 :: uint8_t] = 4"
    by simp_all
  have r: "run_ops (cbuffer_init 4 [0, 0, 0, 0]) [Push 1, Push 2, Push 3] = Some ?cb"
    by code_simp
  have h: "unat (1 :: uint8_t) \<le> length [0 :: uint8_t]"
    "0 < unat (4 :: uint8_t)" "unat (4 :: uint8_t) \<le> length [0, 0, 0, 0 :: uint8_t]"
    by simp_all
  have b: "backlog ?cb = [1, 2, 3]" by code_simp
  have u: "upto_eom 13 [1, 2, 3] = [1, 2, 3]" by simp
  from popm_drains_message [OF c r h, of 13] c r h b u show ?thesis
    unfolding b by (intro conjI)
qed

text \<open>
  Claim C6. In every state that the operations of the ring reach from the empty buffer
  and whose buffered bytes hold the terminator first at position \<open>k\<close> (from 0), with \<open>k + 1 \<le> max_len\<close> and a caller area of \<open>max_len\<close> bytes at
  least, \<^verbatim>\<open>cbuffer_popm\<close> returns \<open>k + 1\<close>; the bytes copied are the first \<open>k + 1\<close> buffered
  ones, the last of them the terminator; the bytes after position \<open>k\<close> stay buffered, and
  a later pop returns them.
\<close>

theorem popm_terminator:
  assumes "0 < C" and "C \<le> 255" and "length mem = C"
    and "run_ops (cbuffer_init C mem) cs = Some cb"
    and "k < length (backlog cb)" and "backlog cb ! k = eom"
    and "eom \<notin> set (take k (backlog cb))"
    and "k + 1 \<le> unat max_len" and "unat max_len \<le> length data"
    and "0 < unat dsize2" and "unat dsize2 \<le> length data2"
  shows "\<exists>cb' data' j. cbuffer_popm cb data max_len eom = Some (cb', data', j) \<and>
    unat j = k + 1 \<and> take (k + 1) data' = take (k + 1) (backlog cb) \<and> data' ! k = eom \<and>
    backlog cb' = drop (k + 1) (backlog cb) \<and>
    (\<exists>cb2 data2' j2. cbuffer_pop cb' data2 dsize2 = (cb2, data2', j2) \<and>
       unat j2 = min (length (backlog cb) - (k + 1)) (unat dsize2) \<and>
       take (unat j2) data2' = take (unat dsize2) (drop (k + 1) (backlog cb)))"
proof -
  have inv: "cbuffer_inv cb"
    by (rule reachable_inv [OF assms(1-4)])
  have m: "upto_eom eom (backlog cb) = take (Suc k) (backlog cb)"
    by (rule upto_eom_first [OF assms(5-7)])
  with assms(5) have lm: "length (upto_eom eom (backlog cb)) = Suc k" by simp
  from cbuffer_popm_spec [OF inv, of data max_len eom] assms(9)
  obtain cb' data' j where r: "cbuffer_popm cb data max_len eom = Some (cb', data', j)"
    and inv': "cbuffer_inv cb'"
    and bl0: "backlog cb' = drop (length (upto_eom eom (backlog cb))) (backlog cb)"
    and j0: "unat j = min (length (upto_eom eom (backlog cb))) (unat max_len)"
    and d0: "take (unat j) data' = take (unat max_len) (upto_eom eom (backlog cb))"
    by auto
  from bl0 have bl': "backlog cb' = drop (Suc k) (backlog cb)"
    by (simp only: lm)
  from j0 assms(8) have j: "unat j = Suc k"
    by (simp add: lm)
  from assms(8) have "min (unat max_len) (Suc k) = Suc k" by simp
  then have "take (unat max_len) (take (Suc k) (backlog cb)) = take (Suc k) (backlog cb)"
    by (simp only: take_take)
  with d0 have d: "take (Suc k) data' = take (Suc k) (backlog cb)"
    by (simp only: j m)
  have "data' ! k = take (Suc k) data' ! k" by simp
  also have "\<dots> = backlog cb ! k" unfolding d by simp
  finally have e: "data' ! k = eom" using assms(6) by simp
  have l': "unat (len cb') = length (backlog cb) - Suc k"
    using bl' backlog_length [of cb'] by simp
  from cbuffer_pop_spec [OF inv', of data2 dsize2] assms(10,11)
  obtain cb2 data2' j2 where "cbuffer_pop cb' data2 dsize2 = (cb2, data2', j2)"
    and "unat j2 = min (unat (len cb')) (unat dsize2)"
    and "take (unat j2) data2' = take (unat dsize2) (backlog cb')"
    by auto
  with r bl' j d e l' show ?thesis by simp
qed

theorem popm_terminator_witness:
  "(0 :: nat) < 4 \<and> (4 :: nat) \<le> 255 \<and> length [0, 0, 0, 0 :: uint8_t] = 4 \<and>
   run_ops (cbuffer_init 4 [0, 0, 0, 0])
       [Push 1, Push 2, Push 3, Pop [0, 0, 0] 3, Push 4, Push 5, Push 7, Push 13] =
     Some \<lparr>buffer = [5, 7, 13, 4], idx = 3, start = 3, TOP = 3, size_cb = 4, len = 4,
       overflow = True\<rparr> \<and>
   backlog \<lparr>buffer = [5, 7, 13, 4], idx = 3, start = 3, TOP = 3, size_cb = 4, len = 4,
       overflow = True\<rparr> = [4, 5, 7, 13] \<and>
   (1 :: nat) < length [4, 5, 7, 13 :: uint8_t] \<and> [4, 5, 7, 13 :: uint8_t] ! 1 = 5 \<and>
   (5 :: uint8_t) \<notin> set (take 1 [4, 5, 7, 13]) \<and>
   (1 :: nat) + 1 \<le> unat (2 :: uint8_t) \<and> unat (2 :: uint8_t) \<le> length [0, 0 :: uint8_t] \<and>
   0 < unat (4 :: uint8_t) \<and> unat (4 :: uint8_t) \<le> length [0, 0, 0, 0 :: uint8_t] \<and>
   (\<exists>cb' data' j. cbuffer_popm \<lparr>buffer = [5, 7, 13, 4], idx = 3, start = 3, TOP = 3, size_cb = 4,
       len = 4, overflow = True\<rparr> [0, 0] 2 5 = Some (cb', data', j) \<and>
     unat j = 1 + 1 \<and> take (1 + 1) data' = take (1 + 1) [4, 5, 7, 13] \<and> data' ! 1 = 5 \<and>
     backlog cb' = drop (1 + 1) [4, 5, 7, 13] \<and>
     (\<exists>cb2 data2' j2. cbuffer_pop cb' [0, 0, 0, 0] 4 = (cb2, data2', j2) \<and>
        unat j2 = min (length [4, 5, 7, 13 :: uint8_t] - (1 + 1)) (unat (4 :: uint8_t)) \<and>
        take (unat j2) data2' = take (unat (4 :: uint8_t)) (drop (1 + 1) [4, 5, 7, 13])))"
proof -
  let ?cb = "\<lparr>buffer = [5, 7, 13, 4], idx = 3, start = 3, TOP = 3, size_cb = 4, len = 4,
       overflow = True\<rparr>"
  have c: "(0 :: nat) < 4" "(4 :: nat) \<le> 255" "length [0, 0, 0, 0 :: uint8_t] = 4"
    by simp_all
  have r: "run_ops (cbuffer_init 4 [0, 0, 0, 0])
       [Push 1, Push 2, Push 3, Pop [0, 0, 0] 3, Push 4, Push 5, Push 7, Push 13] = Some ?cb"
    by code_simp
  have b: "backlog ?cb = [4, 5, 7, 13]" by code_simp
  have h: "(1 :: nat) < length [4, 5, 7, 13 :: uint8_t]" "[4, 5, 7, 13 :: uint8_t] ! 1 = 5"
    "(5 :: uint8_t) \<notin> set (take 1 [4, 5, 7, 13])"
    "(1 :: nat) + 1 \<le> unat (2 :: uint8_t)" "unat (2 :: uint8_t) \<le> length [0, 0 :: uint8_t]"
    "0 < unat (4 :: uint8_t)" "unat (4 :: uint8_t) \<le> length [0, 0, 0, 0 :: uint8_t]"
    by simp_all
  from popm_terminator [of 4 "[0, 0, 0, 0]" _ ?cb 1 5 2 "[0, 0]" 4 "[0, 0, 0, 0]",
      unfolded b, OF c r h] c r b h
  show ?thesis by (intro conjI)
qed

text \<open>
  Claim C7, as stated, fails. \<open>eol\<close> holds 63 and the terminator \<open>0x0d\<close> arrives: the handler
  leaves \<open>eol\<close> at 0. The counter is a six-bit field that \<^verbatim>\<open>eol++\<close> increments; nothing
  holds it at 63.
\<close>

theorem isr_eol_wraps_counterexample:
  "eol (ISR_USART0_RX_vect (Some 0x0d)
      \<lparr>rx = cbuffer_init 16 (replicate 16 0), tx = replicate 16 0, tx_size = 16, b0 = False,
        b1 = False, eol = 63\<rparr> 0x0d) = 0"
  by code_simp

text \<open>
  Claim C7, amended. For every received byte equal to the configured terminator the handler
  adds one to \<open>eol\<close> and then pushes the byte into the ring. \<open>eol\<close> counts modulo 64: it
  does not saturate, and from 63 it goes to 0.
\<close>

theorem isr_counts_eol:
  "ISR_USART0_RX_vect (Some e) usart0 e =
     usart0\<lparr>eol := eol usart0 + 1, rx := fst (cbuffer_push (rx usart0) e)\<rparr> \<and>
   unat (eol (ISR_USART0_RX_vect (Some e) usart0 e)) = (unat (eol usart0) + 1) mod 64"
  by (simp add: ISR_USART0_RX_vect_def Let_def unat_word_ariths)

theorem isr_counts_eol_witness:
  "ISR_USART0_RX_vect (Some 0x0d)
      \<lparr>rx = cbuffer_init 16 (replicate 16 0), tx = replicate 16 0, tx_size = 16, b0 = False,
        b1 = False, eol = 62\<rparr> 0x0d =
     \<lparr>rx = cbuffer_init 16 (replicate 16 0), tx = replicate 16 0, tx_size = 16, b0 = False,
        b1 = False, eol = 62\<rparr>
     \<lparr>eol := 62 + 1, rx := fst (cbuffer_push (cbuffer_init 16 (replicate 16 0)) 0x0d)\<rparr> \<and>
   unat (eol (ISR_USART0_RX_vect (Some 0x0d)
      \<lparr>rx = cbuffer_init 16 (replicate 16 0), tx = replicate 16 0, tx_size = 16, b0 = False,
        b1 = False, eol = 62\<rparr> 0x0d)) = 63"
  using isr_counts_eol [of "0x0d" "\<lparr>rx = cbuffer_init 16 (replicate 16 0), tx = replicate 16 0,
      tx_size = 16, b0 = False, b1 = False, eol = 62\<rparr>"]
  by simp




text \<open>
  Claim C9. Start from the empty buffer that \<^verbatim>\<open>cbuffer_init\<close> builds, for a capacity
  \<open>C\<close> between 1 and 255, and apply any sequence of push, pop, pop-until and clear
  operations with any arguments. Every operation returns, and in the state reached: when
  the overflow latch is clear, \<open>len\<close> is \<open>(idx - start) mod C\<close>; when it is set, the two
  cursors are equal and \<open>len\<close> is \<open>C\<close>.
\<close>

theorem cbuffer_invariant:
  assumes "0 < C" and "C \<le> 255" and "length mem = C"
  shows "\<exists>cb. run_ops (cbuffer_init C mem) cs = Some cb \<and>
    (\<not> overflow cb \<longrightarrow>
       int (unat (len cb)) = (int (unat (idx cb)) - int (unat (start cb))) mod int C) \<and>
    (overflow cb \<longrightarrow> idx cb = start cb \<and> unat (len cb) = C)"
proof -
  from cbuffer_init_inv [OF assms]
  have i: "cbuffer_inv (cbuffer_init C mem)" and c: "capacity (cbuffer_init C mem) = C"
    by simp_all
  from run_ops_inv [OF i, of cs] c
  obtain cb where r: "run_ops (cbuffer_init C mem) cs = Some cb" "cbuffer_inv cb" "capacity cb = C"
    by auto
  from cbuffer_inv_cursors [OF r(2)] r show ?thesis by simp
qed

theorem cbuffer_invariant_witness:
  "(0::nat) < 4 \<and> (4::nat) \<le> 255 \<and> length [0, 0, 0, 0 :: uint8_t] = 4 \<and>
   run_ops (cbuffer_init 4 [0, 0, 0, 0])
       [Push 1, Push 2, Push 3, Pop [0] 1, Push 4, Push 5, Push 6, Pop_until [0, 0] 2 3, Push 7]
     = Some \<lparr>buffer = [5, 7, 3, 4], idx = 2, start = 3, TOP = 3, size_cb = 4, len = 3,
         overflow = False\<rparr> \<and>
   (\<exists>cb. run_ops (cbuffer_init 4 [0, 0, 0, 0])
       [Push 1, Push 2, Push 3, Pop [0] 1, Push 4, Push 5, Push 6, Pop_until [0, 0] 2 3, Push 7] = Some cb \<and>
     (\<not> overflow cb \<longrightarrow>
       int (unat (len cb)) = (int (unat (idx cb)) - int (unat (start cb))) mod int 4) \<and>
     (overflow cb \<longrightarrow> idx cb = start cb \<and> unat (len cb) = 4))"
proof -
  have "run_ops (cbuffer_init 4 [0, 0, 0, 0])
       [Push 1, Push 2, Push 3, Pop [0] 1, Push 4, Push 5, Push 6, Pop_until [0, 0] 2 3, Push 7]
     = Some \<lparr>buffer = [5, 7, 3, 4], idx = 2, start = 3, TOP = 3, size_cb = 4, len = 3,
         overflow = False\<rparr>"
    by code_simp
  moreover from cbuffer_invariant [of 4 "[0, 0, 0, 0]"
      "[Push 1, Push 2, Push 3, Pop [0] 1, Push 4, Push 5, Push 6, Pop_until [0, 0] 2 3, Push 7]"]
  have "\<exists>cb. run_ops (cbuffer_init 4 [0, 0, 0, 0])
       [Push 1, Push 2, Push 3, Pop [0] 1, Push 4, Push 5, Push 6, Pop_until [0, 0] 2 3, Push 7] = Some cb \<and>
     (\<not> overflow cb \<longrightarrow>
       int (unat (len cb)) = (int (unat (idx cb)) - int (unat (start cb))) mod int 4) \<and>
     (overflow cb \<longrightarrow> idx cb = start cb \<and> unat (len cb) = 4)"
    by simp
  ultimately show ?thesis by simp
qed

text \<open>
  Claim C10. A push on a buffer whose overflow latch is set returns false and returns the
  buffer as it was: the stored bytes, both cursors, \<open>len\<close> and the latch are unchanged.
\<close>

theorem cbuffer_push_rejected:
  "overflow cbuffer \<Longrightarrow> cbuffer_push cbuffer rxc = (cbuffer, False)"
  by (simp add: cbuffer_push_def)


theorem cbuffer_push_rejected_witness:
  "overflow \<lparr>buffer = [7, 8], idx = 0, start = 0, TOP = 1, size_cb = 2, len = 2, overflow = True\<rparr> \<and>
   fst (push_all (cbuffer_init 2 [0, 0]) [7, 8]) =
     \<lparr>buffer = [7, 8], idx = 0, start = 0, TOP = 1, size_cb = 2, len = 2, overflow = True\<rparr> \<and>
   cbuffer_push \<lparr>buffer = [7, 8], idx = 0, start = 0, TOP = 1, size_cb = 2, len = 2, overflow = True\<rparr> 9
     = (\<lparr>buffer = [7, 8], idx = 0, start = 0, TOP = 1, size_cb = 2, len = 2, overflow = True\<rparr>, False)"
proof -
  have "fst (push_all (cbuffer_init 2 [0, 0]) [7, 8]) =
     \<lparr>buffer = [7, 8], idx = 0, start = 0, TOP = 1, size_cb = 2, len = 2, overflow = True\<rparr>"
    by code_simp
  with cbuffer_push_rejected [of "\<lparr>buffer = [7, 8], idx = 0, start = 0, TOP = 1, size_cb = 2,
      len = 2, overflow = True\<rparr>" 9]
  show ?thesis by simp
qed

end
